theory Spec2Isabelle
  imports Complex_Main "HOL-Library.Log_Nat"
begin

section \<open>Doubles\<close>

text \<open>
  The estimator of \<^verbatim>\<open>src/nested_sampling.py\<close> works on numpy arrays of IEEE 754
  doubles. A finite double is modelled as the real number it denotes, and every
  arithmetic operation of the program is the exact operation followed by \<open>fl\<close>, rounding
  to the nearest double with ties to the even significand: the significand has 53 bits,
  the exponent of the last bit is at least \<open>-1074\<close>, so values below the normal range are
  rounded on the fixed grid of the subnormal numbers and values of magnitude at most
  \<open>2\<^sup>-\<^sup>1\<^sup>0\<^sup>7\<^sup>5\<close> become \<open>0\<close>. Overflow to infinity is left out: the sums of standard normal
  draws that the program forms are far from \<open>1.8e308\<close>.
\<close>

definition round_half_even :: "real \<Rightarrow> int" where
  "round_half_even r =
     (let f = \<lfloor>r\<rfloor>; d = r - of_int f
      in if d < 1 / 2 then f else if 1 / 2 < d then f + 1 else if even f then f else f + 1)"

text \<open>The binary exponent \<open>e\<close> of \<open>x \<noteq> 0\<close>, with \<open>2\<^sup>e \<le> |x| < 2\<^sup>e\<^sup>+\<^sup>1\<close>.\<close>

definition expo :: "real \<Rightarrow> int" where
  "expo x = (if 1 \<le> \<bar>x\<bar> then bitlen \<lfloor>\<bar>x\<bar>\<rfloor> - 1 else - bitlen (\<lceil>1 / \<bar>x\<bar>\<rceil> - 1))"

text \<open>The spacing of the doubles around \<open>x\<close>.\<close>

definition quantum :: "real \<Rightarrow> real" where
  "quantum x = 2 powi (max (expo x) (- 1022) - 52)"

definition fl :: "real \<Rightarrow> real" where
  "fl x = of_int (round_half_even (x / quantum x)) * quantum x"

section \<open>Numbers, errors and the random source\<close>

text \<open>
  The two places where a non-finite double is visible to the program are kept: the target
  \<^verbatim>\<open>n * a\<close>, whose factor \<^verbatim>\<open>a\<close> is an arbitrary double given by the caller, and the
  diagnostic \<^verbatim>\<open>var_median\<close>, which is \<^verbatim>\<open>np.inf\<close> on tied data.
\<close>

datatype pyfloat = Fin real | PInf | NInf | NaN

text \<open>\<^verbatim>\<open>n * a\<close> for a Python int \<^verbatim>\<open>n\<close> and a double \<^verbatim>\<open>a\<close>.\<close>

fun int_times :: "int \<Rightarrow> pyfloat \<Rightarrow> pyfloat" where
  "int_times n (Fin x) = Fin (fl (of_int n * x))"
| "int_times n PInf = (if n = 0 then NaN else if 0 < n then PInf else NInf)"
| "int_times n NInf = (if n = 0 then NaN else if 0 < n then NInf else PInf)"
| "int_times n NaN = NaN"

text \<open>\<^verbatim>\<open>u >= target\<close> for a finite \<^verbatim>\<open>u\<close>; every comparison with nan is false.\<close>

fun float_ge :: "real \<Rightarrow> pyfloat \<Rightarrow> bool" where
  "float_ge u (Fin t) = (t \<le> u)"
| "float_ge u PInf = False"
| "float_ge u NInf = True"
| "float_ge u NaN = False"

datatype error = ValueError | IndexError | ZeroDivisionError

text \<open>
  The global numpy generator is made explicit. Each draw of the program is one entry of
  the source: \<open>randn_X i j\<close> is entry \<open>(i, j)\<close> of the initial \<^verbatim>\<open>np.random.randn(N, n)\<close>,
  \<open>choice_draw k i\<close> is the \<open>i\<close>-th raw draw of \<^verbatim>\<open>np.random.choice\<close> at level \<open>k\<close>
  (reduced into the range of the call, see \<open>choice\<close>), and \<open>randn_proposals k j i\<close> is the
  proposal for particle \<open>i\<close> at coordinate \<open>j\<close> of the sweep of level \<open>k\<close>. A normal draw
  is a double: the program sees the entry of the source rounded by \<open>fl\<close>, so that every
  source describes a run and every run has a source.
\<close>

record random_source =
  randn_X :: "nat \<Rightarrow> nat \<Rightarrow> real"
  choice_draw :: "nat \<Rightarrow> nat \<Rightarrow> nat"
  randn_proposals :: "nat \<Rightarrow> nat \<Rightarrow> nat \<Rightarrow> real"

section \<open>Sums and order statistics\<close>

text \<open>
  \<^verbatim>\<open>X.sum(axis=1)\<close> adds each row with numpy's pairwise summation, started from the
  identity \<open>0\<close>: fewer than 8 entries are added from left to right; up to 128 entries
  are added in 8 interleaved accumulators, which are then combined two by two, and the
  entries after the last full group of 8 are added one by one; a longer row is split in
  two at a multiple of 8.
\<close>

definition seq_sum :: "real \<Rightarrow> real list \<Rightarrow> real" where
  "seq_sum r xs = foldl (\<lambda>r x. fl (r + x)) r xs"

fun lanes :: "real list \<Rightarrow> real list \<Rightarrow> real list" where
  "lanes r xs =
     (if length xs < 8 then r
      else lanes (map (\<lambda>(a, x). fl (a + x)) (zip r (take 8 xs))) (drop 8 xs))"

function pairwise_sum :: "real list \<Rightarrow> real" where
  "pairwise_sum xs =
     (if length xs < 8 then seq_sum 0 xs
      else if length xs \<le> 128 then
        (let r = lanes (take 8 xs) (drop 8 xs);
             res = fl (fl (fl (r ! 0 + r ! 1) + fl (r ! 2 + r ! 3))
                       + fl (fl (r ! 4 + r ! 5) + fl (r ! 6 + r ! 7)))
         in seq_sum res (drop (length xs - length xs mod 8) xs))
      else fl (pairwise_sum (take (length xs div 2 - length xs div 2 mod 8) xs)
               + pairwise_sum (drop (length xs div 2 - length xs div 2 mod 8) xs)))"
  by pat_completeness auto
termination
  by (relation "measure length") auto

definition np_sum :: "real list \<Rightarrow> real" where
  "np_sum xs = fl (0 + pairwise_sum xs)"

text \<open>
  \<^verbatim>\<open>np.median\<close>: \<^verbatim>\<open>np.mean\<close> of the middle order statistic for an odd length, of the
  two middle ones for an even length: their sum divided by their number. Only called on
  a non-empty vector (see \<open>level\<close>).
\<close>

definition median :: "real list \<Rightarrow> real" where
  "median xs =
     (let s = sort xs; N = length xs;
          middle = (if odd N then [s ! (N div 2)] else [s ! (N div 2 - 1), s ! (N div 2)])
      in fl (np_sum middle / real (length middle)))"

text \<open>
  numpy's linear interpolation between two neighbouring order statistics: from the lower
  one for a weight below \<open>1/2\<close>, from the upper one otherwise.
\<close>

definition lerp :: "real \<Rightarrow> real \<Rightarrow> real \<Rightarrow> real" where
  "lerp a b t =
     (let diff_b_a = fl (b - a)
      in if t < 1 / 2 then fl (a + fl (diff_b_a * t))
         else fl (b - fl (diff_b_a * fl (1 - t))))"

text \<open>
  \<^verbatim>\<open>np.percentile(xs, q)\<close> with the default linear interpolation: the virtual index is
  \<open>(N - 1) * q / 100\<close>, its floor and the next index (clipped to \<open>N - 1\<close>) are the
  neighbours, and the fractional part is the weight. For the percentiles that the
  program asks for (75, 50 and 25) the virtual index and the weight are exact in doubles.
\<close>

definition percentile :: "real list \<Rightarrow> nat \<Rightarrow> real" where
  "percentile xs q =
     (let s = sort xs; N = length xs;
          lo = ((N - 1) * q) div 100;
          hi = min (lo + 1) (N - 1);
          g = real (((N - 1) * q) mod 100) / 100
      in lerp (s ! lo) (s ! hi) g)"

text \<open>
  Lines 67-75: the variance of the median from the gap between the quartiles. The test
  \<^verbatim>\<open>q75 > q50\<close> is on the doubles that \<^verbatim>\<open>np.percentile\<close> returns; the value of the
  diagnostic is recorded as the exact value of its formula (the double that the program
  stores is this value after the rounding of each operation).
\<close>

definition var_median :: "real list \<Rightarrow> nat \<Rightarrow> pyfloat" where
  "var_median row_sums N =
     (let q75 = percentile row_sums 75; q50 = percentile row_sums 50
      in if q75 > q50
         then (let f_u = (real N / 2) / (q75 - q50) in Fin (1 / (4 * real N * f_u ^ 2)))
         else PInf)"

section \<open>Selection and resampling\<close>

text \<open>Boolean-mask indexing \<^verbatim>\<open>X[mask]\<close>: the rows whose mask entry is true, in order.\<close>

definition mask_rows :: "'a list \<Rightarrow> bool list \<Rightarrow> 'a list" where
  "mask_rows pop msk = map fst (filter snd (zip pop msk))"

text \<open>
  \<^verbatim>\<open>np.random.choice(m, size=sz, replace=True)\<close>: \<open>sz\<close> indices, each in \<open>{0..<m}\<close>;
  numpy raises ValueError when \<open>m = 0\<close> and samples are taken.
\<close>

definition choice :: "(nat \<Rightarrow> nat) \<Rightarrow> nat \<Rightarrow> nat \<Rightarrow> error + nat list" where
  "choice draw m sz =
     (if m = 0 \<and> 0 < sz then Inl ValueError
      else Inr (map (\<lambda>i. draw i mod m) [0..<sz]))"

text \<open>Lines 88-97: keep the rows with \<^verbatim>\<open>sums >= u_next\<close>, draw \<open>N\<close> of them with replacement.\<close>

definition select_resample ::
  "(nat \<Rightarrow> nat) \<Rightarrow> nat \<Rightarrow> real list list \<Rightarrow> real list \<Rightarrow> real \<Rightarrow> error + real list list" where
  "select_resample draw N pop row_sums u_next =
     (let survivors = mask_rows pop (map (\<lambda>s. s \<ge> u_next) row_sums);
          n_survivors = length survivors
      in case choice draw n_survivors N of
           Inl e \<Rightarrow> Inl e
         | Inr indices \<Rightarrow> Inr (map (\<lambda>i. survivors ! i) indices))"

section \<open>The Gibbs sweep\<close>

text \<open>
  Lines 102-107, one coordinate \<open>j\<close>: the row sums are recomputed from the population,
  the candidate sum \<^verbatim>\<open>current_sums - X[:, j] + proposals\<close> is formed by a subtraction
  and an addition of doubles, a proposal is accepted for the rows whose candidate sum is
  at or above the threshold, and the number of accepted rows is returned.
\<close>

definition gibbs_coordinate ::
  "real \<Rightarrow> nat \<Rightarrow> real list \<Rightarrow> real list list \<Rightarrow> real list list \<times> nat" where
  "gibbs_coordinate u_next j proposals pop =
     (let current_sums = map np_sum pop;
          new_sums = map (\<lambda>(s, row, p). fl (fl (s - row ! j) + p))
                       (zip current_sums (zip pop proposals));
          accept = map (\<lambda>s. s \<ge> u_next) new_sums;
          pop' = map (\<lambda>(row, p, acc). if acc then row[j := p] else row)
                   (zip pop (zip proposals accept))
      in (pop', length (filter id accept)))"

fun gibbs_pass ::
  "(nat \<Rightarrow> real list) \<Rightarrow> real \<Rightarrow> nat list \<Rightarrow> real list list \<Rightarrow> nat \<Rightarrow> real list list \<times> nat" where
  "gibbs_pass proposals u_next [] pop total_accepts = (pop, total_accepts)"
| "gibbs_pass proposals u_next (j # js) pop total_accepts =
     (case gibbs_coordinate u_next j (proposals j) pop of
        (pop', c) \<Rightarrow> gibbs_pass proposals u_next js pop' (total_accepts + c))"

text \<open>
  The sweep of \<^verbatim>\<open>src/refined_nested_sampling.py\<close> (lines 69-78): the row sums are
  computed once before the sweep and kept in \<^verbatim>\<open>current_sums\<close>, which is overwritten
  with the candidate sum wherever a proposal is accepted. The loop state is the pair of
  \<^verbatim>\<open>samples\<close> and \<^verbatim>\<open>current_sums\<close>.
\<close>

definition refined_gibbs_coordinate ::
  "real \<Rightarrow> nat \<Rightarrow> real list \<Rightarrow> real list list \<times> real list \<Rightarrow> (real list list \<times> real list) \<times> nat" where
  "refined_gibbs_coordinate u_k j prop st =
     (case st of (samples, current_sums) \<Rightarrow>
        let new_sums = map (\<lambda>(s, row, p). fl (fl (s - row ! j) + p))
                         (zip current_sums (zip samples prop));
            accept_mask = map (\<lambda>s. s \<ge> u_k) new_sums;
            samples' = map (\<lambda>(row, p, acc). if acc then row[j := p] else row)
                         (zip samples (zip prop accept_mask));
            current_sums' = map (\<lambda>(s, s', acc). if acc then s' else s)
                              (zip current_sums (zip new_sums accept_mask))
        in ((samples', current_sums'), length (filter id accept_mask)))"

fun refined_gibbs_loop ::
  "(nat \<Rightarrow> real list) \<Rightarrow> real \<Rightarrow> nat list \<Rightarrow> real list list \<times> real list \<Rightarrow> nat
     \<Rightarrow> (real list list \<times> real list) \<times> nat" where
  "refined_gibbs_loop prop u_k [] st total_accept = (st, total_accept)"
| "refined_gibbs_loop prop u_k (j # js) st total_accept =
     (case refined_gibbs_coordinate u_k j (prop j) st of
        (st', c) \<Rightarrow> refined_gibbs_loop prop u_k js st' (total_accept + c))"

definition refined_gibbs_pass ::
  "(nat \<Rightarrow> real list) \<Rightarrow> real \<Rightarrow> nat \<Rightarrow> real list list \<Rightarrow> real list list \<times> nat" where
  "refined_gibbs_pass prop u_k n samples =
     (case refined_gibbs_loop prop u_k [0..<n] (samples, map np_sum samples) 0 of
        ((samples', current_sums), total_accept) \<Rightarrow> (samples', total_accept))"

section \<open>The level loop\<close>

text \<open>
  The three lists that the loop appends to are shared by the loop state (the local
  variables \<^verbatim>\<open>X\<close>, \<^verbatim>\<open>iteration\<close>) and by the returned dictionary
  (\<^verbatim>\<open>probability\<close>, \<^verbatim>\<open>K\<close>, \<^verbatim>\<open>final_samples\<close>).
\<close>

record trace =
  thresholds :: "real list"
  vars_median :: "pyfloat list"
  accept_rates :: "real list"

record state = trace +
  X :: "real list list"
  iteration :: int

record results = trace +
  probability :: real
  K :: int
  final_samples :: "real list list"

text \<open>
  One pass through the body of \<^verbatim>\<open>while True\<close> (lines 60-115). The outcome is an
  exception, the dictionary built after \<^verbatim>\<open>break\<close> (lines 118-136), or the state at
  the start of the next pass.

  \<^item> With \<open>N = 0\<close> the vector of sums is empty: \<^verbatim>\<open>np.median\<close> gives nan with a warning
    and \<^verbatim>\<open>np.percentile\<close> then raises IndexError (numpy 1.22 and later), so the pass
    ends in an exception before anything is compared or returned.
  \<^item> With \<open>n = 0\<close> the sweep does not run, \<^verbatim>\<open>total_accepts\<close> is still the Python
    int 0 and \<^verbatim>\<open>total_accepts / (N * n)\<close> raises ZeroDivisionError.
  \<^item> \<^verbatim>\<open>0.5 ** K\<close> is the double nearest to \<open>2\<^sup>-\<^sup>K\<close>.
  \<^item> The printing under \<^verbatim>\<open>verbose\<close> has no effect on the result and is left out.
\<close>

definition level ::
  "random_source \<Rightarrow> nat \<Rightarrow> nat \<Rightarrow> pyfloat \<Rightarrow> state \<Rightarrow> error + (results + state)" where
  "level rs N n target st =
     (let row_sums = map np_sum (X st)
      in if row_sums = [] then Inl IndexError
         else
           let u_next = median row_sums;
               thresholds' = thresholds st @ [u_next];
               vars_median' = vars_median st @ [var_median row_sums N]
           in if float_ge u_next target
              then Inr (Inl \<lparr>thresholds = thresholds', vars_median = vars_median',
                             accept_rates = accept_rates st,
                             probability = fl (power_int (1 / 2) (iteration st)),
                             K = iteration st, final_samples = X st\<rparr>)
              else
                case select_resample (choice_draw rs (nat (iteration st))) N (X st) row_sums u_next of
                  Inl e \<Rightarrow> Inl e
                | Inr pop \<Rightarrow>
                    (case gibbs_pass
                            (\<lambda>j. map (\<lambda>i. fl (randn_proposals rs (nat (iteration st)) j i)) [0..<N])
                            u_next [0..<n] pop 0 of
                       (pop', total_accepts) \<Rightarrow>
                         if N * n = 0 then Inl ZeroDivisionError
                         else Inr (Inr \<lparr>thresholds = thresholds', vars_median = vars_median',
                                        accept_rates = accept_rates st
                                          @ [fl (real total_accepts / real (N * n))],
                                        X = pop', iteration = iteration st + 1\<rparr>)))"

text \<open>\<^verbatim>\<open>while True\<close>: the loop has no other exit than \<^verbatim>\<open>break\<close> and an exception.\<close>

partial_function (option) level_loop ::
  "random_source \<Rightarrow> nat \<Rightarrow> nat \<Rightarrow> pyfloat \<Rightarrow> state \<Rightarrow> (error + results) option" where
  "level_loop rs N n target st =
     (case level rs N n target st of
        Inl e \<Rightarrow> Some (Inl e)
      | Inr (Inl r) \<Rightarrow> Some (Inr r)
      | Inr (Inr st') \<Rightarrow> level_loop rs N n target st')"

text \<open>
  The entry point (lines 8-57). \<^verbatim>\<open>np.random.randn(N, n)\<close> raises ValueError on a
  negative dimension; there is no other check of the parameters.
\<close>

definition initial_state :: "random_source \<Rightarrow> nat \<Rightarrow> nat \<Rightarrow> state" where
  "initial_state rs N n =
     \<lparr>thresholds = [], vars_median = [], accept_rates = [],
      X = map (\<lambda>i. map (\<lambda>j. fl (randn_X rs i j)) [0..<n]) [0..<N],
      iteration = 0\<rparr>"

definition nested_sampling ::
  "random_source \<Rightarrow> int \<Rightarrow> pyfloat \<Rightarrow> int \<Rightarrow> (error + results) option" where
  "nested_sampling rs n a N =
     (let target = int_times n a
      in if N < 0 \<or> n < 0 then Some (Inl ValueError)
         else level_loop rs (nat N) (nat n) target (initial_state rs (nat N) (nat n)))"

text \<open>
  The first \<open>k\<close> passes of the loop, for statements about runs that have not (or not
  yet) returned: the outcome is the state after \<open>k\<close> completed passes, or the exception
  or the result of the pass that ended the loop before.
\<close>

fun levels ::
  "nat \<Rightarrow> random_source \<Rightarrow> nat \<Rightarrow> nat \<Rightarrow> pyfloat \<Rightarrow> state \<Rightarrow> error + (results + state)" where
  "levels 0 rs N n target st = Inr (Inr st)"
| "levels (Suc k) rs N n target st =
     (case level rs N n target st of
        Inr (Inr st') \<Rightarrow> levels k rs N n target st'
      | out \<Rightarrow> out)"

section \<open>Invariant of the loop state and example inputs\<close>

text \<open>
  What holds of the loop state at the start of every pass: the population has \<open>N\<close> rows
  of \<open>n\<close> coordinates, the three lists have one entry per completed pass, and the
  recorded thresholds are doubles.
\<close>

definition state_ok :: "nat \<Rightarrow> nat \<Rightarrow> state \<Rightarrow> bool" where
  "state_ok N n st \<longleftrightarrow>
     length (X st) = N \<and> (\<forall>row \<in> set (X st). length row = n) \<and>
     iteration st = int (length (accept_rates st)) \<and>
     length (thresholds st) = length (accept_rates st) \<and>
     length (vars_median st) = length (accept_rates st) \<and>
     (\<forall>t \<in> set (thresholds st). fl t = t)"


text \<open>Random sources used for the concrete runs below.\<close>

definition rs_example :: random_source where
  "rs_example = \<lparr>randn_X = (\<lambda>i j. real i), choice_draw = (\<lambda>k i. i),
                  randn_proposals = (\<lambda>k j i. real (k + i + 1))\<rparr>"

definition rs_zero :: random_source where
  "rs_zero = \<lparr>randn_X = (\<lambda>i j. 0), choice_draw = (\<lambda>k i. 0), randn_proposals = (\<lambda>k j i. 0)\<rparr>"

text \<open>
  One particle in one dimension that stays at \<open>0\<close> for 1074 passes and is moved to \<open>3\<close>
  by the proposal of pass 1074.
\<close>

definition rs_slow :: random_source where
  "rs_slow = \<lparr>randn_X = (\<lambda>i j. 0), choice_draw = (\<lambda>k i. 0),
               randn_proposals = (\<lambda>k j i. if k = 1074 then 3 else 0)\<rparr>"


section \<open>Rounding: auxiliary facts\<close>

lemma round_half_even_of_int [simp]: "round_half_even (of_int k) = k"
  by (simp add: round_half_even_def)

lemma round_half_even_bounds:
  "r - 1 / 2 \<le> of_int (round_half_even r)" "of_int (round_half_even r) \<le> r + 1 / 2"
  unfolding round_half_even_def Let_def by (auto; linarith)+

lemma round_half_even_floor:
  "\<lfloor>r\<rfloor> \<le> round_half_even r" "round_half_even r \<le> \<lfloor>r\<rfloor> + 1"
  unfolding round_half_even_def Let_def by auto

lemma round_half_even_mono:
  assumes "r \<le> s"
  shows "round_half_even r \<le> round_half_even s"
proof (cases "\<lfloor>r\<rfloor> = \<lfloor>s\<rfloor>")
  case True
  then show ?thesis
    using assms unfolding round_half_even_def Let_def by (auto; linarith)
next
  case False
  with assms have "\<lfloor>r\<rfloor> + 1 \<le> \<lfloor>s\<rfloor>" using floor_mono [OF assms] by linarith
  with round_half_even_floor(2) [of r] round_half_even_floor(1) [of s] show ?thesis by linarith
qed

lemma round_half_even_zero:
  assumes "\<bar>r\<bar> \<le> 1 / 2"
  shows "round_half_even r = 0"
proof -
  consider "0 \<le> r" "r < 1 / 2" | "r = 1 / 2" | "r < 0" "- 1 / 2 < r" | "r = - 1 / 2"
    using assms by linarith
  then show ?thesis
  proof cases
    case 1
    then have "\<lfloor>r\<rfloor> = 0" by linarith
    with 1 show ?thesis by (simp add: round_half_even_def)
  next
    case 2
    then have "\<lfloor>r\<rfloor> = 0" by linarith
    with 2 show ?thesis by (simp add: round_half_even_def)
  next
    case 3
    then have "\<lfloor>r\<rfloor> = - 1" by linarith
    with 3 show ?thesis by (simp add: round_half_even_def)
  next
    case 4
    then have "\<lfloor>r\<rfloor> = - 1" by linarith
    with 4 show ?thesis by (simp add: round_half_even_def)
  qed
qed

lemma expo_bounds:
  assumes "x \<noteq> 0"
  shows "2 powi (expo x) \<le> \<bar>x\<bar>" and "\<bar>x\<bar> < 2 powi (expo x + 1)"
proof -
  have "2 powi (expo x) \<le> \<bar>x\<bar> \<and> \<bar>x\<bar> < 2 powi (expo x + 1)"
  proof (cases "1 \<le> \<bar>x\<bar>")
    case True
    define m where "m = \<lfloor>\<bar>x\<bar>\<rfloor>"
    have m: "0 < m" "of_int m \<le> \<bar>x\<bar>" "\<bar>x\<bar> < of_int m + 1"
      using True unfolding m_def by linarith+
    from bitlen_bounds [OF m(1)] have b: "2 ^ nat (bitlen m - 1) \<le> m" "m < 2 ^ nat (bitlen m)"
      by blast+
    have pos: "1 \<le> bitlen m" using m(1) by (simp add: bitlen_alt_def)
    have e: "expo x = bitlen m - 1" using True by (simp add: expo_def m_def)
    have "(2::real) powi (bitlen m - 1) = of_int (2 ^ nat (bitlen m - 1))"
      using pos by (simp add: power_int_def)
    also have "\<dots> \<le> of_int m" using b(1) by (simp only: of_int_le_iff)
    finally have lo: "2 powi (expo x) \<le> \<bar>x\<bar>" using m(2) e by simp
    have "m + 1 \<le> 2 ^ nat (bitlen m)" using b(2) by simp
    then have "of_int (m + 1) \<le> (of_int (2 ^ nat (bitlen m)) :: real)" by (simp only: of_int_le_iff)
    also have "\<dots> = 2 powi (bitlen m)" using pos by (simp add: power_int_def)
    finally have "\<bar>x\<bar> < 2 powi (expo x + 1)" using m(3) e by simp
    with lo show ?thesis by blast
  next
    case False
    define y where "y = 1 / \<bar>x\<bar>"
    define m where "m = \<lceil>y\<rceil> - 1"
    have ax: "0 < \<bar>x\<bar>" "\<bar>x\<bar> < 1" using assms False by simp_all
    then have y: "1 < y" by (simp add: y_def)
    have m: "0 < m" "of_int m < y" "y \<le> of_int m + 1"
      using y unfolding m_def by linarith+
    from bitlen_bounds [OF m(1)] have b: "2 ^ nat (bitlen m - 1) \<le> m" "m < 2 ^ nat (bitlen m)"
      by blast+
    have pos: "1 \<le> bitlen m" using m(1) by (simp add: bitlen_alt_def)
    have e: "expo x = - bitlen m" using False by (simp add: expo_def m_def y_def)
    have "m + 1 \<le> 2 ^ nat (bitlen m)" using b(2) by simp
    then have "of_int (m + 1) \<le> (of_int (2 ^ nat (bitlen m)) :: real)" by (simp only: of_int_le_iff)
    also have "\<dots> = 2 powi (bitlen m)" using pos by (simp add: power_int_def)
    finally have "y \<le> 2 powi (bitlen m)" using m(3) by simp
    then have "1 / 2 powi (bitlen m) \<le> 1 / y"
      using y by (intro divide_left_mono) simp_all
    then have lo: "2 powi (expo x) \<le> \<bar>x\<bar>"
      unfolding e using ax by (simp add: y_def power_int_minus_divide)
    have "(2::real) powi (bitlen m - 1) = of_int (2 ^ nat (bitlen m - 1))"
      using pos by (simp add: power_int_def)
    also have "\<dots> \<le> of_int m" using b(1) by (simp only: of_int_le_iff)
    finally have "2 powi (bitlen m - 1) < y" using m(2) by linarith
    then have "1 / y < 1 / 2 powi (bitlen m - 1)"
      using y by (intro divide_strict_left_mono mult_pos_pos) simp_all
    then have "\<bar>x\<bar> < 2 powi (- (bitlen m - 1))"
      unfolding power_int_minus_divide using ax by (simp add: y_def)
    moreover have "- (bitlen m - 1) = expo x + 1" unfolding e by simp
    ultimately have "\<bar>x\<bar> < 2 powi (expo x + 1)" by (simp only:)
    with lo show ?thesis by blast
  qed
  then show "2 powi (expo x) \<le> \<bar>x\<bar>" and "\<bar>x\<bar> < 2 powi (expo x + 1)" by blast+
qed

lemma expo_unique:
  assumes "2 powi e \<le> \<bar>x\<bar>" "\<bar>x\<bar> < 2 powi (e + 1)"
  shows "expo x = e"
proof -
  have "(0::real) < 2 powi e" by simp
  with assms(1) have "0 < \<bar>x\<bar>" by linarith
  then have "x \<noteq> 0" by simp
  note b = expo_bounds [OF this]
  have "(2::real) powi e < 2 powi (expo x + 1)" using assms(1) b(2) by linarith
  then have 1: "e < expo x + 1"
    by (metis not_le one_le_numeral power_int_increasing linorder_not_less)
  have "(2::real) powi (expo x) < 2 powi (e + 1)" using assms(2) b(1) by linarith
  then have 2: "expo x < e + 1"
    by (metis not_le one_le_numeral power_int_increasing linorder_not_less)
  from 1 2 show ?thesis by linarith
qed


lemma round_half_even_minus: "round_half_even (- r) = - round_half_even r"
proof (cases "r = of_int \<lfloor>r\<rfloor>")
  case True
  then have "round_half_even (- r) = round_half_even (of_int (- \<lfloor>r\<rfloor>))" by simp
  also have "\<dots> = - \<lfloor>r\<rfloor>" by (simp only: round_half_even_of_int)
  also have "\<dots> = - round_half_even (of_int \<lfloor>r\<rfloor>)" by (simp only: round_half_even_of_int)
  finally show ?thesis using True by simp
next
  case False
  then have f: "\<lfloor>- r\<rfloor> = - \<lfloor>r\<rfloor> - 1" by linarith
  have "even (- \<lfloor>r\<rfloor> - 1) \<longleftrightarrow> odd \<lfloor>r\<rfloor>" by simp
  then show ?thesis
    unfolding round_half_even_def Let_def f by (auto; linarith)
qed

lemma expo_minus [simp]: "expo (- x) = expo x"
  by (simp add: expo_def)

lemma quantum_minus [simp]: "quantum (- x) = quantum x"
  by (simp add: quantum_def)

lemma quantum_pos [simp]: "0 < quantum x"
  by (simp add: quantum_def)

lemma round_half_even_0 [simp]: "round_half_even 0 = 0"
  using round_half_even_of_int [of 0] by simp

lemma fl_zero [simp]: "fl 0 = 0"
  by (simp add: fl_def)

lemma fl_minus: "fl (- x) = - fl x"
  by (simp add: fl_def round_half_even_minus)

lemma quantum_eval:
  assumes "2 powi e \<le> \<bar>x\<bar>" "\<bar>x\<bar> < 2 powi (e + 1)"
  shows "quantum x = 2 powi (max e (- 1022) - 52)"
  using expo_unique [OF assms] by (simp add: quantum_def)

lemma fl_eval:
  assumes "2 powi e \<le> \<bar>x\<bar>" "\<bar>x\<bar> < 2 powi (e + 1)"
  shows "fl x = of_int (round_half_even (x / 2 powi (max e (- 1022) - 52)))
                  * 2 powi (max e (- 1022) - 52)"
  by (simp add: fl_def quantum_eval [OF assms])

lemma fl_nonneg:
  assumes "0 \<le> x"
  shows "0 \<le> fl x"
proof -
  have "0 \<le> x / quantum x" using assms by (intro divide_nonneg_pos quantum_pos)
  then have "round_half_even 0 \<le> round_half_even (x / quantum x)"
    by (rule round_half_even_mono)
  then have "0 \<le> round_half_even (x / quantum x)" by simp
  then show ?thesis unfolding fl_def by (intro mult_nonneg_nonneg) (simp_all add: less_imp_le)
qed

lemma abs_scaled_less:
  assumes "x \<noteq> 0"
  shows "\<bar>x / quantum x\<bar> < 2 ^ 53"
proof -
  let ?E = "max (expo x) (- 1022)"
  have "\<bar>x\<bar> < 2 powi (expo x + 1)" using assms by (rule expo_bounds)
  also have "\<dots> \<le> 2 powi (?E + 1)" by (intro power_int_increasing) simp_all
  also have "?E + 1 = 53 + (?E - 52)" by linarith
  also have "(2::real) powi (53 + (?E - 52)) = 2 powi 53 * 2 powi (?E - 52)"
    by (rule power_int_add) simp
  finally have "\<bar>x\<bar> < 2 ^ 53 * quantum x" by (simp add: quantum_def)
  then have "\<bar>x\<bar> / quantum x < 2 ^ 53" by (simp add: pos_divide_less_eq)
  moreover have "\<bar>x / quantum x\<bar> = \<bar>x\<bar> / quantum x" by (simp add: less_imp_le)
  ultimately show ?thesis by (simp only:)
qed

lemma round_scaled_le:
  "\<bar>round_half_even (x / quantum x)\<bar> \<le> 2 ^ 53"
proof (cases "x = 0")
  case True
  then show ?thesis by (simp add: round_half_even_zero)
next
  case False
  from abs_scaled_less [OF this] have "x / quantum x < 2 ^ 53" "- (2 ^ 53) < x / quantum x"
    unfolding abs_less_iff by linarith+
  then have a: "x / quantum x \<le> of_int (2 ^ 53)"
    and b: "of_int (- (2 ^ 53)) \<le> x / quantum x" by simp_all
  from round_half_even_mono [OF a] have "round_half_even (x / quantum x) \<le> 2 ^ 53"
    by (simp only: round_half_even_of_int)
  moreover from round_half_even_mono [OF b] have "- (2 ^ 53) \<le> round_half_even (x / quantum x)"
    by (simp only: round_half_even_of_int)
  ultimately show ?thesis by linarith
qed


lemma two_powi_add: "(2::real) powi (a + b) = 2 powi a * 2 powi b"
  by (rule power_int_add) simp

lemma two_powi_le_iff: "(2::real) powi a \<le> 2 powi b \<longleftrightarrow> a \<le> b"
proof
  assume le: "(2::real) powi a \<le> 2 powi b"
  show "a \<le> b"
  proof (rule ccontr)
    assume "\<not> a \<le> b"
    then have "b < a" by simp
    then have "(2::real) powi b < 2 powi a" by (rule power_int_strict_increasing) simp
    with le show False by simp
  qed
next
  assume "a \<le> b"
  then show "(2::real) powi a \<le> 2 powi b" by (rule power_int_increasing) simp
qed

lemma two_powi_nat: "0 \<le> d \<Longrightarrow> (2::real) powi d = of_int (2 ^ nat d)"
  by (simp add: power_int_def)

lemma fl_representable_less:
  assumes "\<bar>k\<bar> < 2 ^ 53" "- 1074 \<le> e"
  shows "fl (of_int k * 2 powi e) = of_int k * 2 powi e"
proof (cases "k = 0")
  case True
  then show ?thesis by simp
next
  case False
  define x :: real where "x = of_int k * 2 powi e"
  define b where "b = bitlen \<bar>k\<bar> - 1"
  have kpos: "0 < \<bar>k\<bar>" using False by simp
  from bitlen_bounds [OF kpos] have bb: "2 ^ nat b \<le> \<bar>k\<bar>" "\<bar>k\<bar> < 2 ^ nat (bitlen \<bar>k\<bar>)"
    unfolding b_def by blast+
  have b0: "0 \<le> b" using kpos by (simp add: b_def bitlen_alt_def)
  have b52: "b \<le> 52"
  proof -
    have "bitlen \<bar>k\<bar> \<le> 53" using assms(1) by (simp add: bitlen_le_iff_power)
    then show ?thesis by (simp add: b_def)
  qed
  have ax: "\<bar>x\<bar> = of_int \<bar>k\<bar> * 2 powi e" by (simp add: x_def abs_mult)
  have "(2::real) powi (b + e) = of_int (2 ^ nat b) * 2 powi e"
    using b0 by (simp add: two_powi_add two_powi_nat)
  also have "\<dots> \<le> of_int \<bar>k\<bar> * 2 powi e"
    using bb(1) by (intro mult_right_mono) (simp_all only: of_int_le_iff zero_le_power_int zero_le_numeral)
  finally have lo: "2 powi (b + e) \<le> \<bar>x\<bar>" by (simp only: ax)
  have "nat (bitlen \<bar>k\<bar>) = nat (b + 1)" by (simp add: b_def)
  with bb(2) have "\<bar>k\<bar> < 2 ^ nat (b + 1)" by simp
  then have "(of_int \<bar>k\<bar> :: real) < of_int (2 ^ nat (b + 1))" by (simp only: of_int_less_iff)
  then have "of_int \<bar>k\<bar> * 2 powi e < of_int (2 ^ nat (b + 1)) * (2::real) powi e"
    by (intro mult_strict_right_mono) simp_all
  also have "\<dots> = 2 powi (b + 1) * 2 powi e"
    using b0 by (simp only: two_powi_nat [of "b + 1"])
  also have "\<dots> = 2 powi (b + 1 + e)"
    by (simp only: two_powi_add)
  finally have hi: "\<bar>x\<bar> < 2 powi (b + e + 1)" by (simp add: ax add.commute add.left_commute)
  define E where "E = max (b + e) (- 1022)"
  define d where "d = e - (E - 52)"
  have d0: "0 \<le> d" using b52 assms(2) by (auto simp: d_def E_def max_def)
  have q: "quantum x = 2 powi (E - 52)"
    using quantum_eval [OF lo hi] by (simp add: E_def)
  have "e = d + (E - 52)" by (simp add: d_def)
  then have "(2::real) powi e = 2 powi d * 2 powi (E - 52)"
    using two_powi_add [of d "E - 52"] by simp
  then have pe: "(2::real) powi e = of_int (2 ^ nat d) * 2 powi (E - 52)"
    using d0 by (simp add: two_powi_nat)
  have "x / quantum x = x / 2 powi (E - 52)" by (simp only: q)
  also have "\<dots> = of_int (k * 2 ^ nat d)"
    unfolding x_def pe by simp
  finally have "x / quantum x = of_int (k * 2 ^ nat d)" .
  then have "round_half_even (x / quantum x) = k * 2 ^ nat d"
    by (simp only: round_half_even_of_int)
  then have "fl x = of_int (k * 2 ^ nat d) * 2 powi (E - 52)"
    by (simp add: fl_def q)
  also have "\<dots> = x" unfolding x_def pe by simp
  finally show ?thesis by (simp add: x_def)
qed

lemma fl_representable:
  assumes "\<bar>k\<bar> \<le> 2 ^ 53" "- 1074 \<le> e"
  shows "fl (of_int k * 2 powi e) = of_int k * 2 powi e"
proof (cases "\<bar>k\<bar> < 2 ^ 53")
  case True
  then show ?thesis using assms(2) by (rule fl_representable_less)
next
  case False
  with assms(1) have "k = 2 ^ 53 \<or> k = - (2 ^ 53)" by linarith
  then have "(of_int k :: real) * 2 powi e = of_int (sgn k) * 2 powi (53 + e)"
    by (auto simp: two_powi_add)
  moreover have "fl (of_int (sgn k) * 2 powi (53 + e)) = of_int (sgn k) * 2 powi (53 + e)"
    by (rule fl_representable_less) (use assms(2) in \<open>auto simp: sgn_if\<close>)
  ultimately show ?thesis by simp
qed

lemma fl_range:
  "\<exists>k e. fl x = of_int k * 2 powi e \<and> \<bar>k\<bar> \<le> 2 ^ 53 \<and> - 1074 \<le> e"
proof -
  have "fl x = of_int (round_half_even (x / quantum x)) * 2 powi (max (expo x) (- 1022) - 52)"
    by (simp add: fl_def quantum_def)
  moreover have "- 1074 \<le> max (expo x) (- 1022) - 52" by simp
  ultimately show ?thesis using round_scaled_le [of x] by blast
qed

lemma fl_idem [simp]: "fl (fl x) = fl x"
proof -
  from fl_range [of x] obtain k e where
    "fl x = of_int k * 2 powi e" "\<bar>k\<bar> \<le> 2 ^ 53" "- 1074 \<le> e" by blast
  then show ?thesis by (simp add: fl_representable)
qed

lemma fl_twice:
  assumes "fl x = x"
  shows "fl (2 * x) = 2 * x"
proof -
  from fl_range [of x] assms obtain k e where
    x: "x = of_int k * 2 powi e" and k: "\<bar>k\<bar> \<le> 2 ^ 53" and e: "- 1074 \<le> e" by auto
  have "2 * x = of_int k * 2 powi (1 + e)" by (simp add: x two_powi_add)
  moreover have "fl (of_int k * 2 powi (1 + e)) = of_int k * 2 powi (1 + e)"
    by (rule fl_representable) (use k e in simp_all)
  ultimately show ?thesis by simp
qed

lemma fl_power_of_two:
  assumes "- 1074 \<le> e"
  shows "fl (2 powi e) = 2 powi e"
  using fl_representable [of 1 e] assms by simp

lemma fl_underflow:
  assumes "\<bar>x\<bar> \<le> 2 powi (- 1075)"
  shows "fl x = 0"
proof (cases "x = 0")
  case True
  then show ?thesis by simp
next
  case False
  have "2 powi (expo x) \<le> \<bar>x\<bar>" using False by (rule expo_bounds)
  with assms have "(2::real) powi (expo x) \<le> 2 powi (- 1075)" by linarith
  then have "expo x \<le> - 1075" by (simp only: two_powi_le_iff)
  then have q: "quantum x = 2 powi (- 1074)" by (simp add: quantum_def max_def)
  have "\<bar>x\<bar> / 2 powi (- 1074) \<le> 2 powi (- 1075) / 2 powi (- 1074)"
    using assms by (intro divide_right_mono) simp_all
  also have "\<dots> = 2 powi (- 1075 - (- 1074))" by (rule power_int_diff [symmetric]) simp
  also have "\<dots> = 1 / 2" by simp
  finally have "\<bar>x\<bar> / quantum x \<le> 1 / 2" by (simp only: q)
  moreover have "\<bar>x / quantum x\<bar> = \<bar>x\<bar> / quantum x" by (simp add: less_imp_le)
  ultimately have "\<bar>x / quantum x\<bar> \<le> 1 / 2" by (simp only:)
  then have "round_half_even (x / quantum x) = 0" by (rule round_half_even_zero)
  then show ?thesis by (simp add: fl_def)
qed


lemma two_powi_less_iff: "(2::real) powi a < 2 powi b \<longleftrightarrow> a < b"
  using two_powi_le_iff [of b a] by (auto simp: not_le [symmetric])

lemma expo_mono:
  assumes "0 < x" "x \<le> y"
  shows "expo x \<le> expo y"
proof -
  have "x \<noteq> 0" "y \<noteq> 0" using assms by simp_all
  from expo_bounds(1) [OF this(1)] expo_bounds(2) [OF this(2)] assms
  have "(2::real) powi (expo x) < 2 powi (expo y + 1)" by simp
  then have "expo x < expo y + 1" by (simp only: two_powi_less_iff)
  then show ?thesis by simp
qed

lemma fl_mono_pos:
  assumes "0 < x" "x \<le> y"
  shows "fl x \<le> fl y"
proof -
  define e1 where "e1 = max (expo x) (- 1022)"
  define e2 where "e2 = max (expo y) (- 1022)"
  have qx: "quantum x = 2 powi (e1 - 52)" and qy: "quantum y = 2 powi (e2 - 52)"
    by (simp_all add: quantum_def e1_def e2_def)
  have le: "e1 \<le> e2" using expo_mono [OF assms] by (simp add: e1_def e2_def max_def)
  show ?thesis
  proof (cases "e1 = e2")
    case True
    then have q: "quantum x = quantum y" by (simp add: qx qy)
    have "x / quantum y \<le> y / quantum y"
      using assms(2) by (intro divide_right_mono) (simp_all add: less_imp_le)
    then have "round_half_even (x / quantum y) \<le> round_half_even (y / quantum y)"
      by (rule round_half_even_mono)
    then have "(of_int (round_half_even (x / quantum y)) :: real)
                 \<le> of_int (round_half_even (y / quantum y))" by (simp only: of_int_le_iff)
    then show ?thesis
      unfolding fl_def q by (intro mult_right_mono) (simp_all add: less_imp_le)
  next
    case False
    with le have lt: "e1 + 1 \<le> e2" by simp
    have "round_half_even (x / quantum x) \<le> 2 ^ 53" using round_scaled_le [of x] by linarith
    then have "(of_int (round_half_even (x / quantum x)) :: real) \<le> of_int (2 ^ 53)"
      by (simp only: of_int_le_iff)
    then have "fl x \<le> of_int (2 ^ 53) * 2 powi (e1 - 52)"
      unfolding fl_def qx by (intro mult_right_mono) simp_all
    also have "\<dots> = 2 powi 53 * 2 powi (e1 - 52)" by simp
    also have "\<dots> = 2 powi (53 + (e1 - 52))" by (simp only: two_powi_add)
    also have "53 + (e1 - 52) = e1 + 1" by simp
    finally have up: "fl x \<le> 2 powi (e1 + 1)" .
    have e2y: "e2 = expo y" using lt by (simp add: e1_def e2_def max_def split: if_splits)
    have ypos: "0 < y" using assms by linarith
    then have "2 powi e2 \<le> y" using expo_bounds(1) [of y] by (simp add: e2y)
    then have "2 powi e2 / 2 powi (e2 - 52) \<le> y / quantum y"
      unfolding qy by (intro divide_right_mono) simp_all
    moreover have "(2::real) powi e2 / 2 powi (e2 - 52) = 2 powi (e2 - (e2 - 52))"
      by (rule power_int_diff [symmetric]) simp
    moreover have "e2 - (e2 - 52) = 52" by simp
    ultimately have "of_int (2 ^ 52) \<le> y / quantum y" by simp
    then have "round_half_even (of_int (2 ^ 52)) \<le> round_half_even (y / quantum y)"
      by (rule round_half_even_mono)
    then have "2 ^ 52 \<le> round_half_even (y / quantum y)" by (simp only: round_half_even_of_int)
    then have "(of_int (2 ^ 52) :: real) \<le> of_int (round_half_even (y / quantum y))"
      by (simp only: of_int_le_iff)
    then have "of_int (2 ^ 52) * 2 powi (e2 - 52) \<le> fl y"
      unfolding fl_def qy by (intro mult_right_mono) simp_all
    moreover have "of_int (2 ^ 52) * (2::real) powi (e2 - 52) = 2 powi 52 * 2 powi (e2 - 52)" by simp
    moreover have "(2::real) powi 52 * 2 powi (e2 - 52) = 2 powi (52 + (e2 - 52))"
      by (simp only: two_powi_add)
    moreover have "52 + (e2 - 52) = e2" by simp
    ultimately have low: "2 powi e2 \<le> fl y" by simp
    have "(2::real) powi (e1 + 1) \<le> 2 powi e2" using lt by (simp only: two_powi_le_iff)
    with up low show ?thesis by linarith
  qed
qed

lemma fl_mono:
  assumes "x \<le> y"
  shows "fl x \<le> fl y"
proof -
  consider "0 < x" | "x = 0" | "x < 0" "0 \<le> y" | "x < 0" "y < 0" by linarith
  then show ?thesis
  proof cases
    case 1
    then show ?thesis using assms by (rule fl_mono_pos)
  next
    case 2
    then show ?thesis using assms fl_nonneg [of y] by simp
  next
    case 3
    have "0 \<le> fl (- x)" using 3(1) by (intro fl_nonneg) simp
    then have "fl x \<le> 0" by (simp add: fl_minus)
    with fl_nonneg [OF 3(2)] show ?thesis by linarith
  next
    case 4
    have "fl (- y) \<le> fl (- x)" by (rule fl_mono_pos) (use 4 assms in simp_all)
    then show ?thesis by (simp add: fl_minus)
  qed
qed

section \<open>Doubles: values that are kept and ties\<close>

lemma fl_exact:
  assumes "x * 2 ^ n \<in> \<int>" "\<bar>x\<bar> * 2 ^ n \<le> 2 ^ 53" "n \<le> 1074"
  shows "fl x = x"
proof -
  from assms(1) obtain k :: int where k: "x * 2 ^ n = of_int k" by (auto elim: Ints_cases)
  have p: "(2::real) powi (- int n) * 2 ^ n = 1"
    by (simp add: power_int_minus field_simps)
  have x: "x = of_int k * 2 powi (- int n)"
  proof -
    have "x = (x * 2 ^ n) * 2 powi (- int n)" using p by (simp add: mult.assoc mult.commute)
    then show ?thesis by (simp only: k)
  qed
  have "\<bar>of_int k :: real\<bar> \<le> 2 ^ 53"
    using assms(2) unfolding k [symmetric] by (simp add: abs_mult)
  then have "\<bar>k\<bar> \<le> 2 ^ 53" by (metis of_int_abs of_int_le_iff of_int_numeral of_int_power)
  moreover have "- 1074 \<le> - int n" using assms(3) by simp
  ultimately have "fl (of_int k * 2 powi (- int n)) = of_int k * 2 powi (- int n)"
    by (rule fl_representable)
  then show ?thesis by (simp only: x [symmetric])
qed

lemmas fl_exact_10 = fl_exact [where n = 10]
lemmas fl_exact_53 = fl_exact [where n = 53]
lemmas fl_exact_52 = fl_exact [where n = 52]

lemma fl_tie_up: "fl (1 + 3 / 2 ^ 53) = 1 + 1 / 2 ^ 51"
  by (subst fl_eval [of 0]) (simp_all add: round_half_even_def)

lemma fl_tie_down: "fl (1 + 5 / 2 ^ 53) = 1 + 1 / 2 ^ 51"
  by (subst fl_eval [of 0]) (simp_all add: round_half_even_def)

lemma fl_tie_two: "fl (2 + 1 / 2 ^ 52) = 2"
  by (subst fl_eval [of 1]) (simp_all add: round_half_even_def)

lemma fl_ties:
  "fl (9007199254740995 / 9007199254740992) = 2251799813685249 / 2251799813685248"
  "fl (9007199254740997 / 9007199254740992) = 2251799813685249 / 2251799813685248"
  "fl (9007199254740993 / 4503599627370496) = 2"
  using fl_tie_up fl_tie_down fl_tie_two by simp_all

lemma half_powi: "(1 / 2 :: real) powi k = 2 powi (- k)"
  by (simp add: power_int_minus power_int_one_over field_simps)

lemma fl_half_power_small:
  assumes "k \<le> 1074"
  shows "fl (1 / 2 ^ k) = 1 / 2 ^ k"
proof -
  have "(1 / 2 ^ k :: real) = 2 powi (- int k)"
    by (simp add: power_int_minus field_simps)
  moreover have "fl (2 powi (- int k)) = 2 powi (- int k)"
    using assms by (intro fl_power_of_two) simp
  ultimately show ?thesis by simp
qed

lemma fl_half_power_large:
  assumes "1075 \<le> k"
  shows "fl (1 / 2 ^ k) = 0"
proof -
  have e: "(1 / 2 ^ k :: real) = 2 powi (- int k)"
    by (simp add: power_int_minus field_simps)
  have "(2 :: real) powi (- int k) \<le> 2 powi (- 1075)"
    using assms by (intro power_int_increasing) simp_all
  moreover have "0 \<le> (2 :: real) powi (- int k)" by simp
  ultimately have "\<bar>(2 :: real) powi (- int k)\<bar> \<le> 2 powi (- 1075)" by simp
  then show ?thesis unfolding e by (rule fl_underflow)
qed

section \<open>Sums and order statistics: auxiliary facts\<close>

lemma pairwise_sum_short: "length xs < 8 \<Longrightarrow> pairwise_sum xs = seq_sum 0 xs"
  by (subst pairwise_sum.simps) simp

lemma np_sum_double [simp]: "fl (np_sum xs) = np_sum xs"
  by (simp add: np_sum_def)

lemma np_sum_Nil [simp]: "np_sum [] = 0"
  by (simp add: np_sum_def pairwise_sum_short seq_sum_def)

lemma np_sum_single: "np_sum [a] = fl a"
  by (simp add: np_sum_def pairwise_sum_short seq_sum_def)

lemma np_sum_pair: "np_sum [a, b] = fl (fl a + b)"
  by (simp add: np_sum_def pairwise_sum_short seq_sum_def)

lemma median_double [simp]: "fl (median xs) = median xs"
  by (simp add: median_def Let_def)


lemma mean_pair_upper:
  assumes "x \<le> c" "y \<le> c" "fl c = c"
  shows "fl (fl (fl x + y) / 2) \<le> c"
proof -
  have "fl x \<le> c" using fl_mono [OF assms(1)] assms(3) by simp
  with assms(2) have "fl x + y \<le> 2 * c" by linarith
  from fl_mono [OF this] have "fl (fl x + y) \<le> 2 * c" by (simp add: fl_twice [OF assms(3)])
  then have "fl (fl x + y) / 2 \<le> c" by linarith
  from fl_mono [OF this] show ?thesis by (simp add: assms(3))
qed


lemma median_le_upper:
  assumes "xs \<noteq> []" "fl (sort xs ! (length xs div 2)) = sort xs ! (length xs div 2)"
  shows "median xs \<le> sort xs ! (length xs div 2)"
proof (cases "odd (length xs)")
  case True
  then show ?thesis using assms(2) by (simp add: median_def Let_def np_sum_single)
next
  case False
  have "sort xs ! (length xs div 2 - 1) \<le> sort xs ! (length xs div 2)"
    using assms(1) by (intro sorted_nth_mono) auto
  then have "fl (fl (fl (sort xs ! (length xs div 2 - 1)) + sort xs ! (length xs div 2)) / 2)
               \<le> sort xs ! (length xs div 2)"
    using assms(2) by (intro mean_pair_upper) simp_all
  then show ?thesis using False by (simp add: median_def Let_def np_sum_pair)
qed

lemma lerp_same [simp]: "lerp a a t = fl a"
  by (simp add: lerp_def)

lemma lerp_zero [simp]: "lerp a b 0 = fl a"
  by (simp add: lerp_def)

lemma length_filter_mono:
  assumes "\<And>x. P x \<Longrightarrow> Q x"
  shows "length (filter P xs) \<le> length (filter Q xs)"
  using assms by (induction xs) auto

lemma count_ge_sorted:
  assumes "sorted s" "k < length s"
  shows "length s - k \<le> length (filter (\<lambda>x. s ! k \<le> x) s)"
proof -
  have "\<forall>x \<in> set (drop k s). s ! k \<le> x"
    using assms by (auto simp: in_set_conv_nth intro!: sorted_nth_mono)
  then have "filter (\<lambda>x. s ! k \<le> x) (drop k s) = drop k s" by simp
  then have "length s - k = length (filter (\<lambda>x. s ! k \<le> x) (drop k s))" by simp
  also have "\<dots> \<le> length (filter (\<lambda>x. s ! k \<le> x) (take k s @ drop k s))"
    by (simp only: filter_append length_append)
  finally show ?thesis by simp
qed

lemma length_filter_sort: "length (filter P (sort xs)) = length (filter P xs)"
  by (simp add: filter_sort)

lemma survivors_half:
  assumes "xs \<noteq> []" "\<forall>x \<in> set xs. fl x = x"
  shows "length xs \<le> 2 * length (filter (\<lambda>x. median xs \<le> x) xs)"
proof -
  let ?s = "sort xs" and ?k = "length xs div 2"
  have k: "?k < length ?s" using assms(1) by simp
  then have "?s ! ?k \<in> set ?s" by (rule nth_mem)
  then have d: "fl (?s ! ?k) = ?s ! ?k" using assms(2) by simp
  have "length ?s - ?k \<le> length (filter (\<lambda>x. ?s ! ?k \<le> x) ?s)"
    by (rule count_ge_sorted) (use k in simp_all)
  also have "\<dots> \<le> length (filter (\<lambda>x. median xs \<le> x) ?s)"
    by (rule length_filter_mono) (use median_le_upper [OF assms(1) d] in simp)
  also have "\<dots> = length (filter (\<lambda>x. median xs \<le> x) xs)"
    by (rule length_filter_sort)
  finally show ?thesis by simp
qed

section \<open>Selection: auxiliary facts\<close>

lemma mask_rows_filter: "mask_rows pop (map h pop) = filter h pop"
  by (induction pop) (simp_all add: mask_rows_def)

lemma survivors_filter:
  "mask_rows pop (map (\<lambda>s. u \<le> s) (map f pop)) = filter (\<lambda>row. u \<le> f row) pop"
proof -
  have "map (\<lambda>s. u \<le> s) (map f pop) = map (\<lambda>row. u \<le> f row) pop"
    by (simp add: comp_def)
  then show ?thesis by (simp only: mask_rows_filter)
qed

lemma select_resample_unfold:
  "select_resample draw N pop (map f pop) u =
     (if filter (\<lambda>row. u \<le> f row) pop = [] \<and> 0 < N then Inl ValueError
      else Inr (map (\<lambda>i. filter (\<lambda>row. u \<le> f row) pop
                    ! (draw i mod length (filter (\<lambda>row. u \<le> f row) pop))) [0..<N]))"
proof (cases "filter (\<lambda>row. u \<le> f row) pop = [] \<and> 0 < N")
  case True
  then show ?thesis
    unfolding select_resample_def choice_def Let_def survivors_filter by simp
next
  case False
  then show ?thesis
    unfolding select_resample_def choice_def Let_def survivors_filter
    by (auto simp: comp_def)
qed

lemma select_resample_rows:
  assumes "select_resample draw N pop (map f pop) u = Inr pop'"
  shows "length pop' = N \<and> (\<forall>row \<in> set pop'. row \<in> set pop \<and> u \<le> f row)"
proof -
  define S where "S = filter (\<lambda>row. u \<le> f row) pop"
  from assms have eq: "pop' = map (\<lambda>i. S ! (draw i mod length S)) [0..<N]"
    and ne: "S \<noteq> [] \<or> N = 0"
    unfolding select_resample_unfold S_def [symmetric] by (simp_all split: if_splits)
  have "row \<in> set S" if "row \<in> set pop'" for row
  proof -
    from that eq obtain i where "i < N" "row = S ! (draw i mod length S)" by auto
    moreover from \<open>i < N\<close> ne have "0 < length S" by auto
    ultimately show ?thesis by simp
  qed
  then have "row \<in> set pop \<and> u \<le> f row" if "row \<in> set pop'" for row
    using that unfolding S_def by simp
  moreover have "length pop' = N" using eq by simp
  ultimately show ?thesis by blast
qed

lemma select_resample_survivors:
  assumes "filter (\<lambda>row. u \<le> f row) pop \<noteq> []"
  shows "\<exists>pop'. select_resample draw N pop (map f pop) u = Inr pop'"
  using assms unfolding select_resample_unfold by (simp only: simp_thms if_False) blast

lemma select_resample_empty:
  assumes "filter (\<lambda>row. u \<le> f row) pop = []" "0 < N"
  shows "select_resample draw N pop (map f pop) u = Inl ValueError"
  using assms unfolding select_resample_unfold by (simp only: simp_thms if_True)

section \<open>The sweep: auxiliary facts\<close>

lemma gibbs_coordinate_Nil [simp]: "gibbs_coordinate u j ps [] = ([], 0)"
  by (simp add: gibbs_coordinate_def Let_def)

lemma gibbs_coordinate_Nil2 [simp]: "gibbs_coordinate u j [] pop = ([], 0)"
  by (simp add: gibbs_coordinate_def Let_def)

lemma gibbs_coordinate_Cons:
  "gibbs_coordinate u j (p # ps) (row # pop) =
     (if u \<le> fl (fl (np_sum row - row ! j) + p)
      then (row[j := p] # fst (gibbs_coordinate u j ps pop), Suc (snd (gibbs_coordinate u j ps pop)))
      else (row # fst (gibbs_coordinate u j ps pop), snd (gibbs_coordinate u j ps pop)))"
  by (simp add: gibbs_coordinate_def Let_def)

lemma length_gibbs_coordinate:
  "length (fst (gibbs_coordinate u j ps pop)) = min (length pop) (length ps)"
  by (simp add: gibbs_coordinate_def Let_def)

lemma gibbs_coordinate_nth:
  assumes "i < length pop" "i < length ps"
  shows "fst (gibbs_coordinate u j ps pop) ! i =
           (if u \<le> fl (fl (np_sum (pop ! i) - pop ! i ! j) + ps ! i)
            then (pop ! i)[j := ps ! i] else pop ! i)"
  using assms by (simp add: gibbs_coordinate_def Let_def)

lemma gibbs_coordinate_cases:
  assumes "row' \<in> set (fst (gibbs_coordinate u j ps pop))"
  shows "\<exists>row \<in> set pop. row' = row \<or> (\<exists>p. row' = row[j := p])"
proof -
  from assms obtain i where i: "i < length (fst (gibbs_coordinate u j ps pop))"
    and r: "row' = fst (gibbs_coordinate u j ps pop) ! i"
    by (auto simp: in_set_conv_nth)
  from i have b: "i < length pop" "i < length ps" by (simp_all add: length_gibbs_coordinate)
  from r gibbs_coordinate_nth [OF b, of u j]
  have "row' = pop ! i \<or> row' = (pop ! i)[j := ps ! i]" by (auto split: if_splits)
  moreover have "pop ! i \<in> set pop" using b(1) by simp
  ultimately show ?thesis by blast
qed

lemma gibbs_coordinate_shape:
  assumes "\<forall>row \<in> set pop. length row = n"
  shows "\<forall>row \<in> set (fst (gibbs_coordinate u j ps pop)). length row = n"
  using assms gibbs_coordinate_cases [of _ u j ps pop] by fastforce

lemma gibbs_pass_shape:
  assumes "\<forall>row \<in> set pop. length row = n"
  shows "\<forall>row \<in> set (fst (gibbs_pass props u js pop t)). length row = n"
  using assms
proof (induction js arbitrary: pop t)
  case Nil
  then show ?case by simp
next
  case (Cons j js)
  from gibbs_coordinate_shape [OF Cons.prems]
  have "\<forall>row \<in> set (fst (gibbs_coordinate u j (props j) pop)). length row = n" .
  from Cons.IH [OF this] show ?case by (simp add: split_beta)
qed

lemma gibbs_pass_length:
  assumes "\<forall>j \<in> set js. length (props j) = length pop"
  shows "length (fst (gibbs_pass props u js pop t)) = length pop"
  using assms
proof (induction js arbitrary: pop t)
  case Nil
  then show ?case by simp
next
  case (Cons j js)
  have len: "length (fst (gibbs_coordinate u j (props j) pop)) = length pop"
    using Cons.prems by (simp add: length_gibbs_coordinate)
  with Cons.prems have "\<forall>j' \<in> set js. length (props j') = length (fst (gibbs_coordinate u j (props j) pop))"
    by simp
  from Cons.IH [OF this] len show ?case by (simp add: split_beta)
qed

lemma gibbs_pass_snoc:
  "gibbs_pass props u (js @ [j]) pop t =
     (fst (gibbs_coordinate u j (props j) (fst (gibbs_pass props u js pop t))),
      snd (gibbs_pass props u js pop t)
        + snd (gibbs_coordinate u j (props j) (fst (gibbs_pass props u js pop t))))"
  by (induction js arbitrary: pop t) (simp_all add: split_beta)


lemma refined_gibbs_coordinate_lengths:
  assumes "length cs = length pop"
  shows "length (fst (fst (refined_gibbs_coordinate u j ps (pop, cs)))) = min (length pop) (length ps)"
    and "length (snd (fst (refined_gibbs_coordinate u j ps (pop, cs)))) = min (length pop) (length ps)"
  using assms by (simp_all add: refined_gibbs_coordinate_def Let_def)

lemma refined_gibbs_coordinate_cache:
  assumes "\<forall>c \<in> set cs. u \<le> c"
  shows "\<forall>c \<in> set (snd (fst (refined_gibbs_coordinate u j ps (pop, cs)))). u \<le> c"
proof
  fix c assume "c \<in> set (snd (fst (refined_gibbs_coordinate u j ps (pop, cs))))"
  then obtain s s' acc where
    z: "(s, s', acc) \<in> set (zip cs (zip (map (\<lambda>(s, row, p). fl (fl (s - row ! j) + p)) (zip cs (zip pop ps)))
            (map (\<lambda>s. u \<le> s) (map (\<lambda>(s, row, p). fl (fl (s - row ! j) + p)) (zip cs (zip pop ps))))))"
    and c: "c = (if acc then s' else s)"
    by (auto simp: refined_gibbs_coordinate_def Let_def)
  from z have "s \<in> set cs" by (auto dest: set_zip_leftD)
  moreover from z have "acc = (u \<le> s')"
    by (auto simp: in_set_zip)
  ultimately show "u \<le> c" using assms c by auto
qed

lemma refined_gibbs_loop_cache:
  assumes "\<forall>c \<in> set (snd st). u \<le> c"
  shows "\<forall>c \<in> set (snd (fst (refined_gibbs_loop props u js st t))). u \<le> c"
  using assms
proof (induction js arbitrary: st t)
  case Nil
  then show ?case by simp
next
  case (Cons j js)
  obtain pop cs where st: "st = (pop, cs)" by (cases st)
  from Cons.prems have "\<forall>c \<in> set cs. u \<le> c" by (simp add: st)
  then have "\<forall>c \<in> set (snd (fst (refined_gibbs_coordinate u j (props j) (pop, cs)))). u \<le> c"
    by (rule refined_gibbs_coordinate_cache)
  from Cons.IH [OF this] show ?case by (simp add: st split_beta)
qed

lemma refined_gibbs_loop_lengths:
  assumes "length (snd st) = length (fst st)" "\<forall>j \<in> set js. length (props j) = length (fst st)"
  shows "length (fst (fst (refined_gibbs_loop props u js st t))) = length (fst st)
       \<and> length (snd (fst (refined_gibbs_loop props u js st t))) = length (fst st)"
  using assms
proof (induction js arbitrary: st t)
  case Nil
  then show ?case by simp
next
  case (Cons j js)
  obtain pop cs where st: "st = (pop, cs)" by (cases st)
  let ?st = "fst (refined_gibbs_coordinate u j (props j) (pop, cs))"
  from Cons.prems have l: "length cs = length pop" "length (props j) = length pop"
    by (simp_all add: st)
  from refined_gibbs_coordinate_lengths [OF l(1), of u j "props j"] l(2)
  have a: "length (fst ?st) = length pop" "length (snd ?st) = length pop" by simp_all
  then have "length (snd ?st) = length (fst ?st)"
    and "\<forall>j' \<in> set js. length (props j') = length (fst ?st)"
    using Cons.prems(2) by (simp_all add: st)
  from Cons.IH [OF this] a show ?case by (simp add: st split_beta)
qed



section \<open>The loop: auxiliary facts\<close>

lemma state_ok_initial: "state_ok N n (initial_state rs N n)"
  by (simp add: state_ok_def initial_state_def)

lemma level_result:
  assumes "level rs N n target st = Inr (Inl r)"
  shows "X st \<noteq> []" and "float_ge (median (map np_sum (X st))) target"
    and "r = \<lparr>thresholds = thresholds st @ [median (map np_sum (X st))],
              vars_median = vars_median st @ [var_median (map np_sum (X st)) N],
              accept_rates = accept_rates st,
              probability = fl (power_int (1 / 2) (iteration st)),
              K = iteration st, final_samples = X st\<rparr>"
  using assms by (auto simp: level_def Let_def split: if_splits sum.splits prod.splits)

lemma level_next:
  assumes "level rs N n target st = Inr (Inr st')"
  shows "X st \<noteq> []" and "\<not> float_ge (median (map np_sum (X st))) target" and "0 < N * n"
    and "\<exists>pop. select_resample (choice_draw rs (nat (iteration st))) N (X st)
                  (map np_sum (X st)) (median (map np_sum (X st))) = Inr pop \<and>
          st' = \<lparr>thresholds = thresholds st @ [median (map np_sum (X st))],
                 vars_median = vars_median st @ [var_median (map np_sum (X st)) N],
                 accept_rates = accept_rates st
                   @ [fl (real (snd (gibbs_pass
                            (\<lambda>j. map (\<lambda>i. fl (randn_proposals rs (nat (iteration st)) j i)) [0..<N])
                            (median (map np_sum (X st))) [0..<n] pop 0)) / real (N * n))],
                 X = fst (gibbs_pass
                            (\<lambda>j. map (\<lambda>i. fl (randn_proposals rs (nat (iteration st)) j i)) [0..<N])
                            (median (map np_sum (X st))) [0..<n] pop 0),
                 iteration = iteration st + 1\<rparr>"
  using assms by (auto simp: level_def Let_def split: if_splits sum.splits prod.splits)

lemma state_ok_next:
  assumes "level rs N n target st = Inr (Inr st')" "state_ok N n st"
  shows "state_ok N n st'"
proof -
  let ?u = "median (map np_sum (X st))"
  let ?props = "\<lambda>j. map (\<lambda>i. fl (randn_proposals rs (nat (iteration st)) j i)) [0..<N]"
  from level_next [OF assms(1)] obtain pop where
    sel: "select_resample (choice_draw rs (nat (iteration st))) N (X st) (map np_sum (X st)) ?u = Inr pop"
    and st': "st' = \<lparr>thresholds = thresholds st @ [?u],
                 vars_median = vars_median st @ [var_median (map np_sum (X st)) N],
                 accept_rates = accept_rates st
                   @ [fl (real (snd (gibbs_pass ?props ?u [0..<n] pop 0)) / real (N * n))],
                 X = fst (gibbs_pass ?props ?u [0..<n] pop 0),
                 iteration = iteration st + 1\<rparr>"
    by blast
  from assms(2) have ok: "\<forall>row \<in> set (X st). length row = n"
    "iteration st = int (length (accept_rates st))"
    "length (thresholds st) = length (accept_rates st)"
    "length (vars_median st) = length (accept_rates st)"
    "\<forall>t \<in> set (thresholds st). fl t = t"
    by (simp_all add: state_ok_def)
  from select_resample_rows [OF sel]
  have pop: "length pop = N" "\<forall>row \<in> set pop. row \<in> set (X st)" by blast+
  have shape: "\<forall>row \<in> set pop. length row = n" using pop(2) ok(1) by blast
  let ?pop = "fst (gibbs_pass ?props ?u [0..<n] pop 0)"
  have len: "length ?pop = N"
    using gibbs_pass_length [of "[0..<n]" ?props pop ?u 0] pop(1) by simp
  have shape': "\<forall>row \<in> set ?pop. length row = n"
    using shape by (rule gibbs_pass_shape)
  have dbl: "\<forall>t \<in> set (thresholds st'). fl t = t"
  proof
    fix t assume "t \<in> set (thresholds st')"
    then have "t \<in> set (thresholds st) \<or> t = ?u" by (auto simp: st')
    then show "fl t = t"
    proof
      assume "t \<in> set (thresholds st)"
      with ok(5) show ?thesis by blast
    next
      assume "t = ?u"
      then show ?thesis by (simp only: median_double)
    qed
  qed
  have "length (X st') = N" using len by (simp add: st')
  moreover have "\<forall>row \<in> set (X st'). length row = n" using shape' by (simp add: st')
  moreover have "iteration st' = int (length (accept_rates st'))" using ok(2) by (simp add: st')
  moreover have "length (thresholds st') = length (accept_rates st')" using ok(3) by (simp add: st')
  moreover have "length (vars_median st') = length (accept_rates st')" using ok(4) by (simp add: st')
  ultimately show ?thesis using dbl unfolding state_ok_def by blast
qed

lemma levels_state_ok:
  assumes "levels k rs N n target st = Inr (Inr st')" "state_ok N n st"
  shows "state_ok N n st' \<and> iteration st' = iteration st + int k"
  using assms
proof (induction k arbitrary: st)
  case 0
  then show ?case by simp
next
  case (Suc k)
  from Suc.prems(1) obtain st1 where l: "level rs N n target st = Inr (Inr st1)"
    and r: "levels k rs N n target st1 = Inr (Inr st')"
    by (auto split: sum.splits)
  from state_ok_next [OF l Suc.prems(2)] have ok1: "state_ok N n st1" .
  from level_next(4) [OF l] have "iteration st1 = iteration st + 1" by auto
  with Suc.IH [OF r ok1] show ?case by simp
qed

lemma levels_loop:
  assumes "levels k rs N n target st = Inr (Inr st')"
  shows "level_loop rs N n target st = level_loop rs N n target st'"
  using assms
proof (induction k arbitrary: st)
  case 0
  then show ?case by simp
next
  case (Suc k)
  from Suc.prems obtain st1 where l: "level rs N n target st = Inr (Inr st1)"
    and r: "levels k rs N n target st1 = Inr (Inr st')"
    by (auto split: sum.splits)
  have "level_loop rs N n target st = level_loop rs N n target st1"
    by (subst level_loop.simps) (simp add: l)
  with Suc.IH [OF r] show ?case by simp
qed

lemma levels_add:
  assumes "levels k rs N n target st = Inr (Inr st1)"
  shows "levels (k + m) rs N n target st = levels m rs N n target st1"
  using assms
  by (induction k arbitrary: st) (auto split: sum.splits)

lemma level_loop_stops:
  assumes "level_loop rs N n target st = Some out"
  shows "\<exists>k st'. levels k rs N n target st = Inr (Inr st') \<and>
           (case out of Inl e \<Rightarrow> level rs N n target st' = Inl e
                      | Inr r \<Rightarrow> level rs N n target st' = Inr (Inl r))"
  using assms
proof (induction rs N n target st out rule: level_loop.raw_induct)
  case (1 f rs N n target st out)
  show ?case
  proof (cases "level rs N n target st")
    case (Inl e)
    with "1.hyps" have "out = Inl e" by simp
    with Inl have "levels 0 rs N n target st = Inr (Inr st) \<and>
        (case out of Inl e \<Rightarrow> level rs N n target st = Inl e
                   | Inr r \<Rightarrow> level rs N n target st = Inr (Inl r))" by simp
    then show ?thesis by blast
  next
    case (Inr c)
    show ?thesis
    proof (cases c)
      case (Inl r)
      with Inr "1.hyps" have "out = Inr r" by simp
      with Inl Inr have "levels 0 rs N n target st = Inr (Inr st) \<and>
        (case out of Inl e \<Rightarrow> level rs N n target st = Inl e
                   | Inr r \<Rightarrow> level rs N n target st = Inr (Inl r))" by simp
      then show ?thesis by blast
    next
      case (Inr st1)
      with \<open>level rs N n target st = Inr c\<close> have l: "level rs N n target st = Inr (Inr st1)" by simp
      with "1.hyps" have a: "f rs N n target st1 = Some out" by simp
      have "level_loop rs N n target st = level_loop rs N n target st1"
        by (subst level_loop.simps) (simp add: l)
      with "1.prems" have b: "level_loop rs N n target st1 = Some out" by simp
      from "1.IH" [OF a b] obtain k st' where
        k: "levels k rs N n target st1 = Inr (Inr st')" and
        o: "(case out of Inl e \<Rightarrow> level rs N n target st' = Inl e
                   | Inr r \<Rightarrow> level rs N n target st' = Inr (Inl r))" by blast
      from l k have "levels (Suc k) rs N n target st = Inr (Inr st')" by simp
      with o show ?thesis by blast
    qed
  qed
qed (rule assms)

lemma level_loop_None_iff:
  "level_loop rs N n target st = None \<longleftrightarrow> (\<forall>k. \<exists>st'. levels k rs N n target st = Inr (Inr st'))"
proof
  assume none: "level_loop rs N n target st = None"
  show "\<forall>k. \<exists>st'. levels k rs N n target st = Inr (Inr st')"
  proof
    fix k
    show "\<exists>st'. levels k rs N n target st = Inr (Inr st')"
    proof (induction k)
      case 0
      then show ?case by simp
    next
      case (Suc k)
      then obtain st1 where k: "levels k rs N n target st = Inr (Inr st1)" by blast
      from levels_loop [OF k] none have n1: "level_loop rs N n target st1 = None" by simp
      have "\<exists>st'. level rs N n target st1 = Inr (Inr st')"
      proof (rule ccontr)
        assume "\<not> ?thesis"
        then have "level_loop rs N n target st1 \<noteq> None"
          by (subst level_loop.simps) (auto split: sum.splits)
        with n1 show False by simp
      qed
      then obtain st' where "level rs N n target st1 = Inr (Inr st')" by blast
      then have "levels (k + 1) rs N n target st = Inr (Inr st')"
        using levels_add [OF k, of 1] by simp
      then show ?case by auto
    qed
  qed
next
  assume all: "\<forall>k. \<exists>st'. levels k rs N n target st = Inr (Inr st')"
  show "level_loop rs N n target st = None"
  proof (rule ccontr)
    assume "level_loop rs N n target st \<noteq> None"
    then obtain out where "level_loop rs N n target st = Some out" by blast
    from level_loop_stops [OF this] obtain k st' where
      k: "levels k rs N n target st = Inr (Inr st')" and
      o: "(case out of Inl e \<Rightarrow> level rs N n target st' = Inl e
                   | Inr r \<Rightarrow> level rs N n target st' = Inr (Inl r))" by blast
    from o have "\<not> (\<exists>st2. level rs N n target st' = Inr (Inr st2))"
      by (auto split: sum.splits)
    moreover from all obtain st2 where "levels (k + 1) rs N n target st = Inr (Inr st2)" by blast
    then have "levels 1 rs N n target st' = Inr (Inr st2)" using levels_add [OF k, of 1] by simp
    then have "\<exists>st2. level rs N n target st' = Inr (Inr st2)" by (auto split: sum.splits)
    ultimately show False by blast
  qed
qed

lemma nested_sampling_loop:
  assumes "nested_sampling rs n a N = Some (Inr r)"
  shows "level_loop rs (nat N) (nat n) (int_times n a) (initial_state rs (nat N) (nat n)) = Some (Inr r)"
  using assms by (simp add: nested_sampling_def Let_def split: if_splits)

lemma level_run_result:
  assumes "levels k rs N n target (initial_state rs N n) = Inr (Inr st)"
    and "level rs N n target st = Inr (Inl r)"
  shows "K r = int k" and "K r = int (length (accept_rates r))"
    and "length (thresholds r) = length (accept_rates r) + 1"
    and "probability r = fl (1 / 2 ^ k)"
    and "thresholds r \<noteq> []" and "float_ge (last (thresholds r)) target"
proof -
  from levels_state_ok [OF assms(1) state_ok_initial]
  have ok: "state_ok N n st" and it: "iteration st = int k"
    by (simp_all add: initial_state_def)
  note r = level_result [OF assms(2)]
  from ok have ok': "iteration st = int (length (accept_rates st))"
    "length (thresholds st) = length (accept_rates st)"
    by (simp_all add: state_ok_def)
  show "K r = int k" using r(3) it by simp
  show "K r = int (length (accept_rates r))" using r(3) ok'(1) by simp
  show "length (thresholds r) = length (accept_rates r) + 1" using r(3) ok'(2) by simp
  show "probability r = fl (1 / 2 ^ k)" using r(3) it by (simp add: power_one_over)
  show "thresholds r \<noteq> []" using r(3) by simp
  show "float_ge (last (thresholds r)) target" using r(2,3) by simp
qed

lemma never_converges:
  assumes "target = PInf \<or> target = NaN"
  shows "level_loop rs N n target st \<noteq> Some (Inr r)"
proof
  assume "level_loop rs N n target st = Some (Inr r)"
  from level_loop_stops [OF this] obtain st' where "level rs N n target st' = Inr (Inl r)" by auto
  from level_result(2) [OF this] assms show False by auto
qed

lemma const_order_statistics:
  assumes "xs \<noteq> []" "\<forall>x \<in> set xs. x = c" "fl c = c"
  shows "median xs = c" and "q \<le> 100 \<Longrightarrow> percentile xs q = c"
proof -
  have nth: "sort xs ! i = c" if "i < length xs" for i
  proof -
    from that have "sort xs ! i \<in> set (sort xs)" by (intro nth_mem) simp
    with assms(2) show ?thesis by simp
  qed
  have i: "length xs div 2 < length xs" "length xs div 2 - 1 < length xs"
    using assms(1) by (auto simp: less_imp_diff_less)
  have two: "fl (fl c + c) = 2 * c"
    using fl_twice [OF assms(3)] by (simp add: assms(3))
  show "median xs = c"
  proof (cases "odd (length xs)")
    case True
    then have "median xs = fl (np_sum [sort xs ! (length xs div 2)] / 1)"
      by (simp add: median_def Let_def)
    also have "\<dots> = c" by (simp only: nth [OF i(1)] np_sum_single div_by_1 assms(3))
    finally show ?thesis .
  next
    case False
    then have "median xs = fl (np_sum [sort xs ! (length xs div 2 - 1), sort xs ! (length xs div 2)] / 2)"
      by (simp add: median_def Let_def)
    also have "\<dots> = fl (2 * c / 2)"
      by (simp only: nth [OF i(1)] nth [OF i(2)] np_sum_pair two)
    also have "\<dots> = c" by (simp add: assms(3))
    finally show ?thesis .
  qed
  assume q: "q \<le> 100"
  have "(length xs - 1) * q \<le> (length xs - 1) * 100" using q by simp
  then have "(length xs - 1) * q div 100 \<le> length xs - 1"
    by (metis div_le_mono nonzero_mult_div_cancel_right zero_neq_numeral)
  moreover have "0 < length xs" using assms(1) by simp
  ultimately have lo: "(length xs - 1) * q div 100 < length xs" by linarith
  have hi: "min ((length xs - 1) * q div 100 + 1) (length xs - 1) < length xs"
  proof -
    have "min ((length xs - 1) * q div 100 + 1) (length xs - 1) \<le> length xs - 1" by simp
    with \<open>0 < length xs\<close> show ?thesis by linarith
  qed
  show "percentile xs q = c"
    unfolding percentile_def Let_def by (simp only: nth [OF lo] nth [OF hi] lerp_same assms(3))
qed

lemma level_first_zero_dim:
  assumes "0 < m"
  shows "level rs m 0 (Fin 0) (initial_state rs m 0) =
    Inr (Inl \<lparr>thresholds = [0], vars_median = [PInf], accept_rates = [],
               probability = 1, K = 0, final_samples = replicate m []\<rparr>)"
proof -
  have pop: "X (initial_state rs m 0) = replicate m []"
    by (simp add: initial_state_def map_replicate_trivial)
  have ne: "replicate m (0::real) \<noteq> []" using assms by simp
  have c: "\<forall>x \<in> set (replicate m (0::real)). x = 0" by simp
  have m: "median (replicate m 0) = 0"
    and p: "percentile (replicate m 0) 75 = 0" "percentile (replicate m 0) 50 = 0"
    using const_order_statistics [OF ne c] by simp_all
  have v: "var_median (replicate m 0) m = PInf" by (simp add: var_median_def p)
  have one: "fl 1 = 1" using fl_power_of_two [of 0] by simp
  show ?thesis
    using assms unfolding level_def pop
    by (simp add: m v one initial_state_def map_replicate_trivial)
qed

lemma level_first_neg_inf:
  assumes "0 < m"
  shows "\<exists>r. level rs m k NInf (initial_state rs m k) = Inr (Inl r) \<and> K r = 0 \<and> probability r = 1"
proof -
  have one: "fl 1 = 1" using fl_power_of_two [of 0] by simp
  show ?thesis using assms by (simp add: level_def initial_state_def Let_def one)
qed

section \<open>Populations of dimension one: auxiliary facts\<close>

lemma single_row:
  assumes "length row = 1"
  shows "row = [row ! 0]"
  using assms by (cases row) simp_all

lemma gibbs_coordinate_single:
  assumes "\<forall>row \<in> set pop. length row = 1 \<and> fl (row ! 0) = row ! 0 \<and> u \<le> np_sum row"
    and "\<forall>p \<in> set ps. fl p = p"
  shows "\<forall>row \<in> set (fst (gibbs_coordinate u 0 ps pop)).
           length row = 1 \<and> fl (row ! 0) = row ! 0 \<and> u \<le> np_sum row"
proof
  fix row' assume "row' \<in> set (fst (gibbs_coordinate u 0 ps pop))"
  then obtain i where i: "i < length (fst (gibbs_coordinate u 0 ps pop))"
    and r: "row' = fst (gibbs_coordinate u 0 ps pop) ! i"
    by (auto simp: in_set_conv_nth)
  from i have b: "i < length pop" "i < length ps" by (simp_all add: length_gibbs_coordinate)
  from b(1) assms(1)
  have orig: "length (pop ! i) = 1 \<and> fl (pop ! i ! 0) = pop ! i ! 0 \<and> u \<le> np_sum (pop ! i)"
    by simp
  define x p where "x = pop ! i ! 0" and "p = ps ! i"
  from b(1) assms(1) have row: "length (pop ! i) = 1" "fl x = x" "u \<le> np_sum (pop ! i)"
    unfolding x_def by simp_all
  from single_row [OF row(1)] have px: "pop ! i = [x]" unfolding x_def .
  from b(2) assms(2) have dp: "fl p = p" unfolding p_def by simp
  have cand: "fl (fl (np_sum (pop ! i) - pop ! i ! 0) + ps ! i) = p"
    unfolding px p_def [symmetric] by (simp add: np_sum_single row(2) dp)
  have new: "(pop ! i)[0 := ps ! i] = [p]"
    unfolding px p_def [symmetric] by simp
  have r': "row' = (if u \<le> p then [p] else pop ! i)"
    unfolding r gibbs_coordinate_nth [OF b] cand new ..
  show "length row' = 1 \<and> fl (row' ! 0) = row' ! 0 \<and> u \<le> np_sum row'"
  proof (cases "u \<le> p")
    case True
    with r' have "row' = [p]" by simp
    with True dp show ?thesis by (simp add: np_sum_single)
  next
    case False
    with r' have "row' = pop ! i" by simp
    with orig show ?thesis by (simp only:)
  qed
qed

lemma gibbs_pass_single:
  assumes "\<forall>row \<in> set pop. length row = 1 \<and> fl (row ! 0) = row ! 0 \<and> u \<le> np_sum row"
    and "\<forall>p \<in> set (props 0). fl p = p"
  shows "\<forall>row \<in> set (fst (gibbs_pass props u [0..<1] pop 0)).
           length row = 1 \<and> fl (row ! 0) = row ! 0 \<and> u \<le> np_sum row"
proof -
  have "fst (gibbs_pass props u [0..<1] pop 0) = fst (gibbs_coordinate u 0 (props 0) pop)"
    by (simp add: split_beta)
  with gibbs_coordinate_single [OF assms] show ?thesis by simp
qed





section \<open>Concrete evaluations\<close>

lemma upt_numerals: "[0..<1] = [0]" "[0..<2] = [0, 1]" "[0..<4] = [0, 1, 2, 3]"
  by (simp_all add: upt_conv_Cons)

lemmas eval_defs = median_def percentile_def lerp_def var_median_def select_resample_def
  mask_rows_def choice_def gibbs_coordinate_def Let_def upt_numerals
  numeral_2_eq_2 [symmetric] power2_eq_square np_sum_single np_sum_pair fl_exact_10

lemma sel_example:
  "select_resample (\<lambda>i. i) 4 [[0], [1], [2], [3]] (map np_sum [[0], [1], [2], [3]]) (3 / 2)
     = Inr [[2], [3], [2], [3]]"
  by (simp add: eval_defs)


lemma refined_ex: "refined_gibbs_pass (\<lambda>j. [1, -1]) 2 2 [[1, 1], [2, 3]] = ([[1, 1], [-1, 3]], 3)"
  by (simp add: refined_gibbs_pass_def refined_gibbs_coordinate_def eval_defs)

lemma gap_example:
  "percentile [0, 0, 0, 4] 75 = 1" "percentile [0, 0, 0, 4] 50 = 0"
  "var_median [0, 0, 0, 4] 4 = Fin (1 / 64)"
  by (simp_all add: eval_defs)

lemma tie_example:
  "sort [0, 1, 1, 2::real] = [0, 1, 1, 2]" "var_median [0, 1, 1, 2] 4 = Fin (1 / 1024)"
  by (simp_all add: eval_defs)

lemmas round_defs = eval_defs fl_exact_52 fl_exact_53 fl_ties

lemma round_sum:
  "np_sum [1 / 2 ^ 53, 1 + 1 / 2 ^ 52] = 1 + 1 / 2 ^ 51"
  "np_sum [0, 1 + 1 / 2 ^ 52] = 1 + 1 / 2 ^ 52"
  by (simp_all add: round_defs)

lemma round_coordinate:
  "gibbs_coordinate (1 + 1 / 2 ^ 51) 0 [0] [[1 / 2 ^ 53, 1 + 1 / 2 ^ 52]] = ([[0, 1 + 1 / 2 ^ 52]], 1)"
  by (simp add: round_defs)

lemma round_sweep:
  "gibbs_pass (\<lambda>j. if j = 0 then [0] else [- 1]) (1 + 1 / 2 ^ 51) [0..<2] [[1 / 2 ^ 53, 1 + 1 / 2 ^ 52]] 0
     = ([[0, 1 + 1 / 2 ^ 52]], 1)"
  by (simp add: round_defs)


lemma round_quartiles:
  "percentile [1 + 1 / 2 ^ 52, 1 + 3 / 2 ^ 52] 50 = 1 + 1 / 2 ^ 51"
  "percentile [1 + 1 / 2 ^ 52, 1 + 3 / 2 ^ 52] 75 = 1 + 1 / 2 ^ 51"
  by (simp_all add: round_defs)

section \<open>Concrete runs\<close>

lemma levels_Suc_last:
  assumes "levels k rs N n target st = Inr (Inr st1)"
  shows "levels (Suc k) rs N n target st = level rs N n target st1"
proof -
  have "levels (k + 1) rs N n target st = levels 1 rs N n target st1"
    using assms by (rule levels_add)
  then show ?thesis by (simp split: sum.splits)
qed

lemma loop_example:
  "level_loop rs_example 4 1 (Fin 3) (initial_state rs_example 4 1) =
     Some (Inr \<lparr>thresholds = [3 / 2, 5 / 2, 7 / 2],
                vars_median = [Fin (9 / 1024), Fin (9 / 1024), Fin (9 / 1024)],
                accept_rates = [3 / 4, 3 / 4], probability = 1 / 4, K = 2,
                final_samples = [[3], [3], [4], [5]]\<rparr>)"
proof -
  have l0: "level rs_example 4 1 (Fin 3) (initial_state rs_example 4 1) =
     Inr (Inr \<lparr>thresholds = [3 / 2], vars_median = [Fin (9 / 1024)], accept_rates = [3 / 4],
                X = [[2], [2], [3], [4]], iteration = 1\<rparr>)"
    by (simp add: level_def initial_state_def rs_example_def eval_defs)
  have l1: "level rs_example 4 1 (Fin 3)
       \<lparr>thresholds = [3 / 2], vars_median = [Fin (9 / 1024)], accept_rates = [3 / 4],
         X = [[2], [2], [3], [4]], iteration = 1\<rparr> =
     Inr (Inr \<lparr>thresholds = [3 / 2, 5 / 2], vars_median = [Fin (9 / 1024), Fin (9 / 1024)],
                accept_rates = [3 / 4, 3 / 4], X = [[3], [3], [4], [5]], iteration = 2\<rparr>)"
    by (simp add: level_def rs_example_def eval_defs)
  have l2: "level rs_example 4 1 (Fin 3)
       \<lparr>thresholds = [3 / 2, 5 / 2], vars_median = [Fin (9 / 1024), Fin (9 / 1024)],
         accept_rates = [3 / 4, 3 / 4], X = [[3], [3], [4], [5]], iteration = 2\<rparr> =
     Inr (Inl \<lparr>thresholds = [3 / 2, 5 / 2, 7 / 2],
                vars_median = [Fin (9 / 1024), Fin (9 / 1024), Fin (9 / 1024)],
                accept_rates = [3 / 4, 3 / 4], probability = 1 / 4, K = 2,
                final_samples = [[3], [3], [4], [5]]\<rparr>)"
    by (simp add: level_def rs_example_def eval_defs)
  show ?thesis
    apply (subst level_loop.simps, simp only: l0 sum.case)
    apply (subst level_loop.simps, simp only: l1 sum.case)
    apply (subst level_loop.simps, simp only: l2 sum.case)
    done
qed


lemma run_example:
  "nested_sampling rs_example 1 (Fin 3) 4 =
     Some (Inr \<lparr>thresholds = [3 / 2, 5 / 2, 7 / 2],
                vars_median = [Fin (9 / 1024), Fin (9 / 1024), Fin (9 / 1024)],
                accept_rates = [3 / 4, 3 / 4], probability = 1 / 4, K = 2,
                final_samples = [[3], [3], [4], [5]]\<rparr>)"
proof -
  have args: "nat (1::int) = 1" "nat (4::int) = 4" "int_times 1 (Fin 3) = Fin 3"
    by (simp_all add: fl_exact_10)
  show ?thesis
    unfolding nested_sampling_def Let_def args loop_example by simp
qed

lemma rs_zero_level:
  assumes "X st = [[0], [0]]"
  shows "\<exists>st'. level rs_zero 2 1 (Fin 1) st = Inr (Inr st') \<and> X st' = [[0], [0]]"
  using assms by (simp add: level_def rs_zero_def eval_defs)

lemma rs_zero_levels:
  assumes "X st = [[0], [0]]"
  shows "\<exists>st'. levels k rs_zero 2 1 (Fin 1) st = Inr (Inr st') \<and> X st' = [[0], [0]]"
  using assms
proof (induction k arbitrary: st)
  case 0
  then show ?case by simp
next
  case (Suc k)
  from rs_zero_level [OF Suc.prems] obtain st1 where
    "level rs_zero 2 1 (Fin 1) st = Inr (Inr st1)" "X st1 = [[0], [0]]" by blast
  with Suc.IH [of st1] show ?case by simp
qed

lemma run_zero:
  "nested_sampling rs_zero 1 (Fin 1) 2 = None"
proof -
  have "X (initial_state rs_zero 2 1) = [[0], [0]]"
    by (simp add: initial_state_def rs_zero_def eval_defs)
  then have "\<forall>k. \<exists>st'. levels k rs_zero 2 1 (Fin 1) (initial_state rs_zero 2 1) = Inr (Inr st')"
    using rs_zero_levels by blast
  then have loop: "level_loop rs_zero 2 1 (Fin 1) (initial_state rs_zero 2 1) = None"
    by (rule iffD2 [OF level_loop_None_iff])
  have args: "nat (1::int) = 1" "nat (2::int) = 2" "int_times 1 (Fin 1) = Fin 1"
    by (simp_all add: fl_exact_10)
  show ?thesis
    unfolding nested_sampling_def Let_def args loop by simp
qed

lemma run_single:
  "nested_sampling rs_zero 1 (Fin 0) 1 =
     Some (Inr \<lparr>thresholds = [0], vars_median = [PInf], accept_rates = [],
                probability = 1, K = 0, final_samples = [[0]]\<rparr>)"
  apply (simp add: nested_sampling_def initial_state_def rs_zero_def)
  apply (subst level_loop.simps, simp add: level_def eval_defs)
  done

lemma slow_level:
  assumes "k \<noteq> 1074"
  shows "level rs_slow 1 1 (Fin 3)
           \<lparr>thresholds = ts, vars_median = vs, accept_rates = rates, X = [[0]], iteration = int k\<rparr> =
         Inr (Inr \<lparr>thresholds = ts @ [0], vars_median = vs @ [PInf], accept_rates = rates @ [1],
                    X = [[0]], iteration = int k + 1\<rparr>)"
  using assms by (simp add: level_def rs_slow_def eval_defs)

lemma slow_levels:
  assumes "k \<le> 1074"
  shows "levels k rs_slow 1 1 (Fin 3) (initial_state rs_slow 1 1) =
         Inr (Inr \<lparr>thresholds = replicate k 0, vars_median = replicate k PInf,
                    accept_rates = replicate k 1, X = [[0]], iteration = int k\<rparr>)"
  using assms
proof (induction k)
  case 0
  then show ?case by (simp add: initial_state_def rs_slow_def eval_defs)
next
  case (Suc k)
  then have k: "levels k rs_slow 1 1 (Fin 3) (initial_state rs_slow 1 1) =
         Inr (Inr \<lparr>thresholds = replicate k 0, vars_median = replicate k PInf,
                    accept_rates = replicate k 1, X = [[0]], iteration = int k\<rparr>)"
    and ne: "k \<noteq> 1074" by simp_all
  show ?case
    unfolding levels_Suc_last [OF k] slow_level [OF ne]
    by (simp add: replicate_append_same)
qed

lemma slow_level_move:
  "level rs_slow 1 1 (Fin 3)
           \<lparr>thresholds = ts, vars_median = vs, accept_rates = rates, X = [[0]], iteration = 1074\<rparr> =
         Inr (Inr \<lparr>thresholds = ts @ [0], vars_median = vs @ [PInf], accept_rates = rates @ [1],
                    X = [[3]], iteration = 1075\<rparr>)"
  by (simp add: level_def rs_slow_def eval_defs)

lemma slow_level_last:
  "level rs_slow 1 1 (Fin 3)
           \<lparr>thresholds = ts, vars_median = vs, accept_rates = rates, X = [[3]], iteration = 1075\<rparr> =
         Inr (Inl \<lparr>thresholds = ts @ [3], vars_median = vs @ [PInf], accept_rates = rates,
                    probability = 0, K = 1075, final_samples = [[3]]\<rparr>)"
proof -
  have "fl ((1 / 2) powi 1075) = 0"
    unfolding half_powi by (rule fl_underflow) simp
  then show ?thesis
    by (simp add: level_def rs_slow_def eval_defs del: power_int_numeral)
qed

lemma run_slow:
  "nested_sampling rs_slow 1 (Fin 3) 1 =
     Some (Inr \<lparr>thresholds = replicate 1075 0 @ [3], vars_median = replicate 1076 PInf,
                accept_rates = replicate 1075 1, probability = 0, K = 1075,
                final_samples = [[3]]\<rparr>)"
proof -
  let ?s = "\<lparr>thresholds = replicate 1074 0, vars_median = replicate 1074 PInf,
             accept_rates = replicate 1074 1, X = [[0]], iteration = 1074\<rparr>"
  have "levels 1074 rs_slow 1 1 (Fin 3) (initial_state rs_slow 1 1) = Inr (Inr ?s)"
    using slow_levels [of 1074] by simp
  from levels_loop [OF this]
  have "level_loop rs_slow 1 1 (Fin 3) (initial_state rs_slow 1 1) =
        level_loop rs_slow 1 1 (Fin 3) ?s" .
  also have "\<dots> = Some (Inr \<lparr>thresholds = (replicate 1074 0 @ [0]) @ [3],
                vars_median = (replicate 1074 PInf @ [PInf]) @ [PInf],
                accept_rates = replicate 1074 1 @ [1], probability = 0, K = 1075,
                final_samples = [[3]]\<rparr>)"
    apply (subst level_loop.simps, simp only: slow_level_move sum.case)
    apply (subst level_loop.simps, simp only: slow_level_last sum.case)
    done
  also have "(replicate 1074 (0::real) @ [0]) @ [3] = replicate 1075 0 @ [3]"
    using replicate_add [of 1074 1 "0::real"] by simp
  also have "(replicate 1074 PInf @ [PInf]) @ [PInf] = replicate 1076 PInf"
    using replicate_add [of 1074 2 PInf] by (simp add: numeral_2_eq_2)
  also have "replicate 1074 (1::real) @ [1] = replicate 1075 1"
    using replicate_add [of 1074 1 "1::real"] by simp
  finally have loop: "level_loop rs_slow 1 1 (Fin 3) (initial_state rs_slow 1 1) =
     Some (Inr \<lparr>thresholds = replicate 1075 0 @ [3], vars_median = replicate 1076 PInf,
                accept_rates = replicate 1075 1, probability = 0, K = 1075,
                final_samples = [[3]]\<rparr>)" .
  have args: "nat (1::int) = 1" "int_times 1 (Fin 3) = Fin 3"
    by (simp_all add: fl_exact_10)
  show ?thesis
    unfolding nested_sampling_def Let_def args loop by simp
qed



section \<open>Quartiles: auxiliary facts\<close>

lemma var_algebra:
  fixes d n :: real
  assumes "d \<noteq> 0" "n \<noteq> 0"
  shows "1 / (4 * n * ((n / 2) / d) ^ 2) = d ^ 2 / n ^ 3"
  using assms by (simp add: field_simps power2_eq_square power3_eq_cube)

lemma percent_step:
  fixes v :: nat
  assumes "v mod 100 \<noteq> 0"
  shows "(v div 100 + 1) * 100 < v + 100"
proof -
  define d r where "d = v div 100" and "r = v mod 100"
  have "d * 100 + r = v" unfolding d_def r_def by (rule div_mult_mod_eq)
  moreover have "0 < r" using assms unfolding r_def by simp
  ultimately have "d * 100 + 100 < v + 100" by simp
  then show ?thesis unfolding d_def by (simp add: add_mult_distrib)
qed

lemma percentile_tied:
  assumes "xs \<noteq> []" "q \<le> 100"
    and "\<forall>i. (length xs - 1) * q div 100 \<le> i \<and> i * 100 < (length xs - 1) * q + 100
              \<longrightarrow> sort xs ! i = c"
  shows "percentile xs q = fl c"
proof -
  let ?M = "length xs - 1"
  let ?lo = "?M * q div 100" and ?g = "?M * q mod 100"
  have lo: "sort xs ! ?lo = c"
  proof -
    have "?lo * 100 \<le> ?M * q" by simp
    then have "?lo * 100 < ?M * q + 100" by linarith
    with assms(3) show ?thesis by blast
  qed
  have p: "percentile xs q = lerp (sort xs ! ?lo) (sort xs ! min (?lo + 1) ?M) (real ?g / 100)"
    by (simp only: percentile_def Let_def)
  show ?thesis
  proof (cases "?g = 0")
    case True
    show ?thesis unfolding p by (simp only: True lo of_nat_0 div_0 lerp_zero)
  next
    case False
    have "?M * q \<le> ?M * 100" using assms(2) by simp
    then have "?lo \<le> ?M"
      by (metis div_le_mono nonzero_mult_div_cancel_right zero_neq_numeral)
    moreover have "?lo \<noteq> ?M"
    proof
      assume "?lo = ?M"
      then have "?M * 100 + ?g = ?M * q" using div_mult_mod_eq [of "?M * q" 100] by simp
      with \<open>?M * q \<le> ?M * 100\<close> False show False by linarith
    qed
    ultimately have hi: "min (?lo + 1) ?M = ?lo + 1" by simp
    from percent_step [OF False] have "(?lo + 1) * 100 < ?M * q + 100" .
    with assms(3) have "sort xs ! (?lo + 1) = c" by simp
    then show ?thesis unfolding p hi by (simp only: lo lerp_same)
  qed
qed

lemma half_index:
  fixes M :: nat
  shows "M * 50 div 100 = M div 2"
proof -
  define a b where "a = M * 50 div 100" and "b = M div 2"
  have "a * 100 + M * 50 mod 100 = M * 50" unfolding a_def by (rule div_mult_mod_eq)
  moreover have "M * 50 mod 100 < 100" by simp
  moreover have "b * 2 + M mod 2 = M" unfolding b_def by (rule div_mult_mod_eq)
  moreover have "M mod 2 < 2" by simp
  ultimately have "a = b" by linarith
  then show ?thesis unfolding a_def b_def .
qed

lemma three_quarter_index:
  fixes M :: nat
  shows "M div 2 \<le> M * 75 div 100"
proof -
  define a b where "a = M * 75 div 100" and "b = M div 2"
  have "a * 100 + M * 75 mod 100 = M * 75" unfolding a_def by (rule div_mult_mod_eq)
  moreover have "M * 75 mod 100 < 100" by simp
  moreover have "b * 2 + M mod 2 = M" unfolding b_def by (rule div_mult_mod_eq)
  ultimately have "b \<le> a" by linarith
  then show ?thesis unfolding a_def b_def .
qed

lemma upper_index:
  fixes M i :: nat
  assumes "i * 100 < M * q + 100" "q \<le> 75"
  shows "i \<le> (3 * M + 3) div 4"
proof -
  define c where "c = (3 * M + 3) div 4"
  have "c * 4 + (3 * M + 3) mod 4 = 3 * M + 3" unfolding c_def by (rule div_mult_mod_eq)
  moreover have "(3 * M + 3) mod 4 < 4" by simp
  moreover have "M * q \<le> M * 75" using assms(2) by simp
  ultimately have "i \<le> c" using assms(1) by linarith
  then show ?thesis unfolding c_def .
qed

lemma quartiles_tied:
  assumes "xs \<noteq> []"
    and "\<forall>i. (length xs - 1) div 2 \<le> i \<and> i \<le> (3 * (length xs - 1) + 3) div 4
           \<longrightarrow> sort xs ! i = c"
  shows "percentile xs 50 = fl c" and "percentile xs 75 = fl c"
proof -
  let ?M = "length xs - 1"
  have "sort xs ! i = c" if "?M * 50 div 100 \<le> i \<and> i * 100 < ?M * 50 + 100" for i
  proof -
    from that have "?M div 2 \<le> i" by (simp only: half_index)
    moreover from that have "i \<le> (3 * ?M + 3) div 4" by (intro upper_index [of i ?M 50]) simp_all
    ultimately show ?thesis using assms(2) by blast
  qed
  then show "percentile xs 50 = fl c"
    by (intro percentile_tied [OF assms(1)]) simp_all
  have "sort xs ! i = c" if "?M * 75 div 100 \<le> i \<and> i * 100 < ?M * 75 + 100" for i
  proof -
    from that three_quarter_index [of ?M] have "?M div 2 \<le> i" by linarith
    moreover from that have "i \<le> (3 * ?M + 3) div 4" by (intro upper_index [of i ?M 75]) simp_all
    ultimately show ?thesis using assms(2) by blast
  qed
  then show "percentile xs 75 = fl c"
    by (intro percentile_tied [OF assms(1)]) simp_all
qed

section \<open>Claims about selection and the sweep\<close>

text \<open>
  Claim C5. For a population with at least one row whose sum is at or above the threshold
  \<open>u\<close>, selection and resampling raises no error and returns exactly \<open>N\<close> rows, each
  of which is a row of the input population with sum at or above \<open>u\<close>. The sums are the
  doubles that \<^verbatim>\<open>X.sum(axis=1)\<close> computes.
\<close>

theorem select_resample_population:
  assumes "\<exists>row \<in> set pop. u \<le> np_sum row"
  shows "\<exists>pop'. select_resample draw N pop (map np_sum pop) u = Inr pop' \<and>
           length pop' = N \<and> (\<forall>row \<in> set pop'. u \<le> np_sum row \<and> row \<in> set pop)"
proof -
  from assms have "filter (\<lambda>row. u \<le> np_sum row) pop \<noteq> []"
    by (simp add: filter_empty_conv)
  then obtain pop' where sel: "select_resample draw N pop (map np_sum pop) u = Inr pop'"
    using select_resample_survivors by blast
  from select_resample_rows [OF sel] sel show ?thesis by blast
qed

text \<open>Four particles \<open>0, 1, 2, 3\<close> at threshold \<open>3/2\<close>.\<close>

theorem select_resample_population_witness:
  "select_resample (\<lambda>i. i) 4 [[0], [1], [2], [3]] (map np_sum [[0], [1], [2], [3]]) (3 / 2)
     = Inr [[2], [3], [2], [3]] \<and>
   length [[2], [3], [2], [3::real]] = 4 \<and>
   list_all (\<lambda>row. 3 / 2 \<le> np_sum row) [[2], [3], [2], [3::real]]"
proof -
  have h: "\<exists>row \<in> set [[0], [1], [2], [3::real]]. 3 / 2 \<le> np_sum row"
    by (simp add: eval_defs)
  from select_resample_population [OF h, where draw = "\<lambda>i. i" and N = 4]
  obtain pop' where
    a: "select_resample (\<lambda>i. i) 4 [[0], [1], [2], [3]] (map np_sum [[0], [1], [2], [3]]) (3 / 2)
          = Inr pop'"
    and b: "length pop' = 4" "\<forall>row \<in> set pop'. 3 / 2 \<le> np_sum row"
    by blast
  from a sel_example have "pop' = [[2], [3], [2], [3]]" by simp
  with b sel_example show ?thesis by (simp add: list_all_iff)
qed

text \<open>
  Claim C9. For a non-empty vector of row sums (doubles, so each entry is its own
  rounding), at least half of the entries (hence at least one) are at or above the median
  that \<^verbatim>\<open>np.median\<close> computes, so selection at the median threshold always finds
  survivors and resampling returns a population; and whenever no row survives a threshold
  while rows are requested, resampling raises ValueError instead of returning a
  population.
\<close>

theorem median_keeps_half:
  assumes "row_sums \<noteq> []" and "\<forall>s \<in> set row_sums. fl s = s"
  shows "length row_sums \<le> 2 * length (filter (\<lambda>s. s \<ge> median row_sums) row_sums) \<and>
         1 \<le> length (filter (\<lambda>s. s \<ge> median row_sums) row_sums) \<and>
         (\<forall>pop draw N. map np_sum pop = row_sums \<longrightarrow>
            (\<exists>pop'. select_resample draw N pop row_sums (median row_sums) = Inr pop')) \<and>
         (\<forall>pop draw N u. 0 < N \<and> (\<forall>row \<in> set pop. \<not> u \<le> np_sum row) \<longrightarrow>
            select_resample draw N pop (map np_sum pop) u = Inl ValueError)"
proof -
  let ?u = "median row_sums"
  have half: "length row_sums \<le> 2 * length (filter (\<lambda>s. ?u \<le> s) row_sums)"
    using assms by (rule survivors_half)
  moreover from assms(1) have "0 < length row_sums" by simp
  ultimately have one: "1 \<le> length (filter (\<lambda>s. ?u \<le> s) row_sums)" by linarith
  have sel: "\<exists>pop'. select_resample draw N pop row_sums ?u = Inr pop'"
    if "map np_sum pop = row_sums" for pop draw N
  proof -
    have "filter (\<lambda>s. ?u \<le> s) (map np_sum pop) = map np_sum (filter (\<lambda>row. ?u \<le> np_sum row) pop)"
      by (simp add: filter_map comp_def)
    with one that have "filter (\<lambda>row. ?u \<le> np_sum row) pop \<noteq> []" by auto
    from select_resample_survivors [OF this] that show ?thesis by simp
  qed
  have loud: "select_resample draw N pop (map np_sum pop) u = Inl ValueError"
    if "0 < N \<and> (\<forall>row \<in> set pop. \<not> u \<le> np_sum row)" for pop draw N u
  proof -
    from that have "filter (\<lambda>row. u \<le> np_sum row) pop = []" by (simp add: filter_empty_conv)
    with that show ?thesis by (simp add: select_resample_empty)
  qed
  from half one sel loud show ?thesis by blast
qed

text \<open>The sums \<open>0, 1, 2, 3\<close>: two survive the median \<open>3/2\<close>, none survives \<open>4\<close>.\<close>

theorem median_keeps_half_witness:
  "length [0, 1, 2, 3::real] \<le> 2 * length (filter (\<lambda>s. s \<ge> median [0, 1, 2, 3]) [0, 1, 2, 3::real]) \<and>
   select_resample (\<lambda>i. i) 4 [[0], [1], [2], [3]] [0, 1, 2, 3] (median [0, 1, 2, 3])
     = Inr [[2], [3], [2], [3]] \<and>
   select_resample (\<lambda>i. i) 4 [[0], [1], [2], [3]] (map np_sum [[0], [1], [2], [3]]) 4
     = Inl ValueError"
proof -
  have h: "[0, 1, 2, 3::real] \<noteq> []" by simp
  have d: "\<forall>s \<in> set [0, 1, 2, 3::real]. fl s = s" by (simp add: fl_exact_10)
  have m: "median [0, 1, 2, 3] = 3 / 2" by (simp add: eval_defs)
  have s: "map np_sum [[0], [1], [2], [3]] = [0, 1, 2, 3]" by (simp add: eval_defs)
  from median_keeps_half [OF h d]
  have "length [0, 1, 2, 3::real] \<le> 2 * length (filter (\<lambda>s. s \<ge> median [0, 1, 2, 3]) [0, 1, 2, 3::real])"
    and "\<forall>pop draw N u. 0 < N \<and> (\<forall>row \<in> set pop. \<not> u \<le> np_sum row) \<longrightarrow>
            select_resample draw N pop (map np_sum pop) u = Inl ValueError"
    by blast+
  moreover have "(0::nat) < 4 \<and> (\<forall>row \<in> set [[0], [1], [2], [3::real]]. \<not> 4 \<le> np_sum row)"
    by (simp add: eval_defs)
  moreover have "select_resample (\<lambda>i. i) 4 [[0], [1], [2], [3]] [0, 1, 2, 3] (median [0, 1, 2, 3])
     = Inr [[2], [3], [2], [3]]"
    unfolding m using sel_example by (simp only: s)
  ultimately show ?thesis by blast
qed

text \<open>
  Claim C4, as stated, fails in doubles. One particle \<open>(2\<^sup>-\<^sup>5\<^sup>3, 1 + 2\<^sup>-\<^sup>5\<^sup>2)\<close> has the row sum
  \<open>1 + 2\<^sup>-\<^sup>5\<^sup>1\<close> (the exact sum is a tie and is rounded up), which is the threshold. The
  proposal \<open>0\<close> for the first coordinate has the candidate sum
  \<open>(1 + 2\<^sup>-\<^sup>5\<^sup>1) - 2\<^sup>-\<^sup>5\<^sup>3 + 0\<close>, which is rounded back to \<open>1 + 2\<^sup>-\<^sup>5\<^sup>1\<close>, so it is accepted; the
  sum of the updated row is \<open>1 + 2\<^sup>-\<^sup>5\<^sup>2\<close>, below the threshold, after this update and at the
  end of the sweep.
\<close>

theorem gibbs_pass_rounding_counterexample:
  "1 + 1 / 2 ^ 51 \<le> np_sum [1 / 2 ^ 53, 1 + 1 / 2 ^ 52] \<and>
   gibbs_pass (\<lambda>j. if j = 0 then [0] else [- 1]) (1 + 1 / 2 ^ 51) [0..<2]
     [[1 / 2 ^ 53, 1 + 1 / 2 ^ 52]] 0 = ([[0, 1 + 1 / 2 ^ 52]], 1) \<and>
   gibbs_coordinate (1 + 1 / 2 ^ 51) 0 [0] [[1 / 2 ^ 53, 1 + 1 / 2 ^ 52]]
     = ([[0, 1 + 1 / 2 ^ 52]], 1) \<and>
   np_sum [0, 1 + 1 / 2 ^ 52] < 1 + 1 / 2 ^ 51"
  using round_sum round_coordinate round_sweep by simp

text \<open>
  Claim C4, amended. In a sweep with threshold \<open>u\<close> over a population whose row sums are
  all at or above \<open>u\<close>, no row is lost, and the update of coordinate \<open>m\<close> leaves row \<open>i\<close>
  as it was or replaces its entry \<open>m\<close> by the proposal, the latter only when the
  candidate sum (the row sum minus the old entry plus the proposal, each operation
  rounded) is at or above \<open>u\<close>; in the sweep that keeps the sums in a cache, every cached
  sum is at or above \<open>u\<close> after every update. The sum of an updated row itself can be
  below \<open>u\<close> by rounding. When the rows have a single coordinate (and entries and
  proposals are doubles) the candidate sum is the sum of the updated row, and every row
  sum is at or above \<open>u\<close> after the sweep.
\<close>

theorem gibbs_pass_keeps_candidates:
  assumes "\<forall>row \<in> set pop. u \<le> np_sum row" and "m < n"
    and "\<forall>j < n. length (props j) = length pop" and "i < length pop"
  shows "length (fst (gibbs_pass props u [0..<Suc m] pop 0)) = length pop \<and>
         (fst (gibbs_pass props u [0..<Suc m] pop 0) ! i = fst (gibbs_pass props u [0..<m] pop 0) ! i \<or>
          fst (gibbs_pass props u [0..<Suc m] pop 0) ! i
            = (fst (gibbs_pass props u [0..<m] pop 0) ! i)[m := props m ! i] \<and>
          u \<le> fl (fl (np_sum (fst (gibbs_pass props u [0..<m] pop 0) ! i)
                        - fst (gibbs_pass props u [0..<m] pop 0) ! i ! m) + props m ! i)) \<and>
         length (snd (fst (refined_gibbs_loop props u [0..<Suc m] (pop, map np_sum pop) 0)))
           = length pop \<and>
         (\<forall>c \<in> set (snd (fst (refined_gibbs_loop props u [0..<Suc m] (pop, map np_sum pop) 0))).
            u \<le> c) \<and>
         ((\<forall>row \<in> set pop. length row = 1 \<and> fl (row ! 0) = row ! 0)
            \<and> (\<forall>p \<in> set (props 0). fl p = p) \<longrightarrow>
          (\<forall>row \<in> set (fst (gibbs_pass props u [0..<1] pop 0)). u \<le> np_sum row))"
proof -
  let ?before = "fst (gibbs_pass props u [0..<m] pop 0)"
  let ?after = "fst (gibbs_pass props u [0..<Suc m] pop 0)"
  have lb: "length ?before = length pop"
    by (rule gibbs_pass_length) (use assms(2,3) in simp)
  have la: "length ?after = length pop"
    by (rule gibbs_pass_length) (use assms(2,3) in simp)
  have step: "?after = fst (gibbs_coordinate u m (props m) ?before)"
    unfolding upt_Suc_append [OF le0] gibbs_pass_snoc by simp
  have i: "i < length ?before" "i < length (props m)"
    using lb assms(2,3,4) by simp_all
  have row: "?after ! i = ?before ! i \<or>
      ?after ! i = (?before ! i)[m := props m ! i] \<and>
      u \<le> fl (fl (np_sum (?before ! i) - ?before ! i ! m) + props m ! i)"
    unfolding step gibbs_coordinate_nth [OF i] by simp
  have "length (snd (pop, map np_sum pop)) = length (fst (pop, map np_sum pop))" by simp
  moreover have "\<forall>j \<in> set [0..<Suc m]. length (props j) = length (fst (pop, map np_sum pop))"
    using assms(2,3) by simp
  ultimately have lc: "length (snd (fst (refined_gibbs_loop props u [0..<Suc m] (pop, map np_sum pop) 0)))
      = length pop"
    using refined_gibbs_loop_lengths [of "(pop, map np_sum pop)" "[0..<Suc m]" props u 0] by simp
  have "\<forall>c \<in> set (snd (pop, map np_sum pop)). u \<le> c" using assms(1) by simp
  then have cache: "\<forall>c \<in> set (snd (fst (refined_gibbs_loop props u [0..<Suc m] (pop, map np_sum pop) 0))).
      u \<le> c"
    by (rule refined_gibbs_loop_cache)
  have single: "\<forall>row \<in> set (fst (gibbs_pass props u [0..<1] pop 0)). u \<le> np_sum row"
    if "(\<forall>row \<in> set pop. length row = 1 \<and> fl (row ! 0) = row ! 0)
          \<and> (\<forall>p \<in> set (props 0). fl p = p)"
  proof -
    from that assms(1)
    have "\<forall>row \<in> set pop. length row = 1 \<and> fl (row ! 0) = row ! 0 \<and> u \<le> np_sum row"
      by blast
    moreover from that have "\<forall>p \<in> set (props 0). fl p = p" by blast
    ultimately show ?thesis using gibbs_pass_single [of pop u props] by blast
  qed
  from la row lc cache single show ?thesis by blast
qed

text \<open>
  The particle of the counterexample: its first coordinate is replaced because the
  candidate sum is at the threshold. Two particles \<open>1\<close> and \<open>2\<close> of dimension one at
  threshold \<open>1\<close> with proposals \<open>3\<close> and \<open>0\<close>: the sums are \<open>3\<close> and \<open>2\<close> after the sweep.
\<close>

theorem gibbs_pass_keeps_candidates_witness:
  "fst (gibbs_pass (\<lambda>j. if j = 0 then [0] else [- 1]) (1 + 1 / 2 ^ 51) [0..<Suc 0]
          [[1 / 2 ^ 53, 1 + 1 / 2 ^ 52]] 0) ! 0 = [1 / 2 ^ 53, 1 + 1 / 2 ^ 52][0 := 0] \<and>
   1 + 1 / 2 ^ 51 \<le> fl (fl (np_sum [1 / 2 ^ 53, 1 + 1 / 2 ^ 52] - 1 / 2 ^ 53) + 0) \<and>
   length (fst (gibbs_pass (\<lambda>j. if j = 0 then [0] else [- 1]) (1 + 1 / 2 ^ 51) [0..<Suc 0]
          [[1 / 2 ^ 53, 1 + 1 / 2 ^ 52]] 0)) = 1 \<and>
   fst (gibbs_pass (\<lambda>j. [3, 0]) 1 [0..<1] [[1], [2]] 0) = [[3], [2]] \<and>
   list_all (\<lambda>row. 1 \<le> np_sum row) (fst (gibbs_pass (\<lambda>j. [3, 0]) 1 [0..<1] [[1], [2]] 0))"
proof -
  have h1: "\<forall>row \<in> set [[1 / 2 ^ 53, 1 + 1 / 2 ^ 52 :: real]]. 1 + 1 / 2 ^ 51 \<le> np_sum row"
    using round_sum by simp
  have h2: "(0::nat) < 2" by simp
  have h3: "\<forall>j < 2. length ((\<lambda>j. if j = 0 then [0] else [- 1 :: real]) j)
              = length [[1 / 2 ^ 53, 1 + 1 / 2 ^ 52 :: real]]" by simp
  have h4: "0 < length [[1 / 2 ^ 53, 1 + 1 / 2 ^ 52 :: real]]" by simp
  have e: "fst (gibbs_pass (\<lambda>j. if j = 0 then [0] else [- 1]) (1 + 1 / 2 ^ 51) [0..<Suc 0]
          [[1 / 2 ^ 53, 1 + 1 / 2 ^ 52]] 0) = [[0, 1 + 1 / 2 ^ 52]]"
    using round_coordinate by simp
  have c: "1 + 1 / 2 ^ 51 \<le> fl (fl (np_sum [1 / 2 ^ 53, 1 + 1 / 2 ^ 52] - 1 / 2 ^ 53) + 0)"
    by (simp add: round_defs)
  from gibbs_pass_keeps_candidates [OF h1 h2 h3 h4]
  have l: "length (fst (gibbs_pass (\<lambda>j. if j = 0 then [0] else [- 1]) (1 + 1 / 2 ^ 51) [0..<Suc 0]
          [[1 / 2 ^ 53, 1 + 1 / 2 ^ 52]] 0)) = length [[1 / 2 ^ 53, 1 + 1 / 2 ^ 52 :: real]]"
    by blast
  have g1: "\<forall>row \<in> set [[1], [2 :: real]]. 1 \<le> np_sum row" by (simp add: eval_defs)
  have g2: "(0::nat) < 1" by simp
  have g3: "\<forall>j < 1. length ((\<lambda>j. [3, 0 :: real]) j) = length [[1], [2 :: real]]" by simp
  have g4: "0 < length [[1], [2 :: real]]" by simp
  have g5: "(\<forall>row \<in> set [[1], [2 :: real]]. length row = 1 \<and> fl (row ! 0) = row ! 0)
              \<and> (\<forall>p \<in> set ((\<lambda>j. [3, 0 :: real]) 0). fl p = p)"
    by (simp add: fl_exact_10)
  from gibbs_pass_keeps_candidates [OF g1 g2 g3 g4] g5
  have s: "\<forall>row \<in> set (fst (gibbs_pass (\<lambda>j. [3, 0]) 1 [0..<1] [[1], [2]] 0)). 1 \<le> np_sum row"
    by blast
  have v: "fst (gibbs_pass (\<lambda>j. [3, 0]) 1 [0..<1] [[1], [2]] 0) = [[3], [2]]"
    by (simp add: eval_defs)
  from e c l s v show ?thesis by (simp add: list_all_iff)
qed




section \<open>Claims about the level loop\<close>

text \<open>
  Claim C1, as stated, fails: the loop has no maximum-iteration guard. With two particles
  at \<open>0\<close>, target \<open>1\<close> and all draws \<open>0\<close>, the median stays at \<open>0\<close> and the call never
  returns.
\<close>

theorem nested_sampling_no_guard_counterexample:
  "nested_sampling rs_zero 1 (Fin 1) 2 = None"
  by (rule run_zero)

text \<open>
  Claim C1, amended. The level loop has no iteration bound and no failure report of its
  own: it runs forever exactly when every pass continues, and when it returns a result,
  the last recorded threshold has reached the target (it has converged normally).
\<close>

theorem level_loop_exits:
  "(level_loop rs N n target st = None \<longleftrightarrow>
      (\<forall>k. \<exists>st'. levels k rs N n target st = Inr (Inr st'))) \<and>
   (\<forall>r. level_loop rs N n target st = Some (Inr r) \<longrightarrow>
      thresholds r \<noteq> [] \<and> float_ge (last (thresholds r)) target)"
proof -
  have "thresholds r \<noteq> [] \<and> float_ge (last (thresholds r)) target"
    if "level_loop rs N n target st = Some (Inr r)" for r
  proof -
    from level_loop_stops [OF that] obtain st' where l: "level rs N n target st' = Inr (Inl r)"
      by auto
    from level_result(2,3) [OF l] show ?thesis by simp
  qed
  with level_loop_None_iff [of rs N n target st] show ?thesis by blast
qed

text \<open>A run of four particles with target \<open>3\<close> that converges at the third threshold.\<close>

theorem level_loop_exits_witness:
  "float_ge (last [3 / 2, 5 / 2, 7 / 2]) (Fin 3) \<and>
   level_loop rs_example 4 1 (Fin 3) (initial_state rs_example 4 1) =
     Some (Inr \<lparr>thresholds = [3 / 2, 5 / 2, 7 / 2],
                vars_median = [Fin (9 / 1024), Fin (9 / 1024), Fin (9 / 1024)],
                accept_rates = [3 / 4, 3 / 4], probability = 1 / 4, K = 2,
                final_samples = [[3], [3], [4], [5]]\<rparr>)"
  using level_loop_exits [of rs_example 4 1 "Fin 3" "initial_state rs_example 4 1"] loop_example
  by simp

text \<open>
  Claim C2, as stated, fails: a call with \<open>N = 1\<close> raises nothing and returns a normal
  result.
\<close>

theorem nested_sampling_single_particle_counterexample:
  "nested_sampling rs_zero 1 (Fin 0) 1 =
     Some (Inr \<lparr>thresholds = [0], vars_median = [PInf], accept_rates = [],
                probability = 1, K = 0, final_samples = [[0]]\<rparr>)"
  by (rule run_single)

text \<open>
  Claim C2, amended. A call with \<open>N < 0\<close> or \<open>n < 0\<close> raises ValueError before the level
  loop starts and returns nothing. No other parameter value is rejected: every other call
  enters the level loop. With \<open>n = 0\<close>, \<open>N \<ge> 1\<close> and a finite \<open>a\<close>, and with \<open>a = -\<infinity>\<close>
  and \<open>n, N \<ge> 1\<close>, the call returns a result with \<open>K = 0\<close> and probability \<open>1\<close>; with
  \<open>a = +\<infinity>\<close> or \<open>a\<close> nan the call never returns a result.
\<close>

theorem nested_sampling_parameters:
  "(N < 0 \<or> n < 0 \<longrightarrow> nested_sampling rs n a N = Some (Inl ValueError)) \<and>
   (0 \<le> N \<and> 0 \<le> n \<longrightarrow>
      nested_sampling rs n a N =
        level_loop rs (nat N) (nat n) (int_times n a) (initial_state rs (nat N) (nat n))) \<and>
   (1 \<le> N \<longrightarrow>
      nested_sampling rs 0 (Fin x) N =
        Some (Inr \<lparr>thresholds = [0], vars_median = [PInf], accept_rates = [],
                   probability = 1, K = 0, final_samples = replicate (nat N) []\<rparr>)) \<and>
   (1 \<le> N \<and> 1 \<le> n \<longrightarrow>
      (\<exists>r. nested_sampling rs n NInf N = Some (Inr r) \<and> K r = 0 \<and> probability r = 1)) \<and>
   (\<forall>r. nested_sampling rs n PInf N \<noteq> Some (Inr r) \<and> nested_sampling rs n NaN N \<noteq> Some (Inr r))"
proof -
  have neg: "nested_sampling rs n a N = Some (Inl ValueError)" if "N < 0 \<or> n < 0"
    using that by (simp add: nested_sampling_def)
  have enter: "nested_sampling rs n a N =
        level_loop rs (nat N) (nat n) (int_times n a) (initial_state rs (nat N) (nat n))"
    if "0 \<le> N \<and> 0 \<le> n"
    using that by (simp add: nested_sampling_def)
  have zero: "nested_sampling rs 0 (Fin x) N =
        Some (Inr \<lparr>thresholds = [0], vars_median = [PInf], accept_rates = [],
                   probability = 1, K = 0, final_samples = replicate (nat N) []\<rparr>)"
    if "1 \<le> N"
  proof -
    from that have "0 < nat N" by simp
    from level_first_zero_dim [OF this, of rs] show ?thesis
      using that by (subst nested_sampling_def, subst level_loop.simps) simp
  qed
  have ninf: "\<exists>r. nested_sampling rs n NInf N = Some (Inr r) \<and> K r = 0 \<and> probability r = 1"
    if "1 \<le> N \<and> 1 \<le> n"
  proof -
    from that have "0 < nat N" by simp
    from level_first_neg_inf [OF this, of rs "nat n"] obtain r where
      "level rs (nat N) (nat n) NInf (initial_state rs (nat N) (nat n)) = Inr (Inl r)"
      "K r = 0" "probability r = 1" by blast
    then show ?thesis
      using that by (subst nested_sampling_def, subst level_loop.simps) simp
  qed
  have never: "nested_sampling rs n b N \<noteq> Some (Inr r)" if "b = PInf \<or> b = NaN" for r b
  proof (cases "N < 0 \<or> n < 0")
    case True
    then show ?thesis by (simp add: nested_sampling_def)
  next
    case False
    with that have "int_times n b = PInf \<or> int_times n b = NaN" by auto
    from never_converges [OF this] False show ?thesis by (simp add: nested_sampling_def)
  qed
  from neg enter zero ninf never show ?thesis by blast
qed

text \<open>A negative \<open>N\<close>, and two particles of dimension \<open>0\<close>.\<close>

theorem nested_sampling_parameters_witness:
  "nested_sampling rs_zero 1 (Fin 0) (- 1) = Some (Inl ValueError) \<and>
   nested_sampling rs_zero 0 (Fin 5) 2 =
        Some (Inr \<lparr>thresholds = [0], vars_median = [PInf], accept_rates = [],
                   probability = 1, K = 0, final_samples = [[], []]\<rparr>)"
  using nested_sampling_parameters [of "- 1" 1 rs_zero "Fin 0" 5]
    nested_sampling_parameters [of 2 1 rs_zero "Fin 0" 5]
  by (simp add: numeral_2_eq_2)

text \<open>
  Claim C3, as stated, fails: \<^verbatim>\<open>0.5 ** K\<close> is a double, and the double nearest to
  \<open>2\<^sup>-\<^sup>K\<close> is \<open>0\<close> from \<open>K = 1075\<close> on. One particle in one dimension with target \<open>3\<close>
  that stays at \<open>0\<close> for 1074 passes and is moved to \<open>3\<close> by the proposal of pass 1074
  returns \<open>K = 1075\<close> and the probability \<open>0\<close>, which is not \<open>2\<^sup>-\<^sup>1\<^sup>0\<^sup>7\<^sup>5\<close> and not in
  \<open>(0, 1]\<close>.
\<close>

theorem nested_sampling_underflow_counterexample:
  "nested_sampling rs_slow 1 (Fin 3) 1 =
     Some (Inr \<lparr>thresholds = replicate 1075 0 @ [3], vars_median = replicate 1076 PInf,
                accept_rates = replicate 1075 1, probability = 0, K = 1075,
                final_samples = [[3]]\<rparr>)"
  by (rule run_slow)

text \<open>
  Claim C3, amended. When the call returns a result, \<open>K\<close> is the number of passes
  completed before the pass that reached the target, which is also the number of
  recorded acceptance rates and one less than the number of recorded thresholds;
  \<open>K \<ge> 0\<close>, and the returned probability is the double nearest to \<open>2\<^sup>-\<^sup>K\<close>: it is exactly
  \<open>2\<^sup>-\<^sup>K\<close>, in \<open>(0, 1]\<close>, for \<open>K \<le> 1074\<close>, and it is \<open>0\<close> for \<open>K \<ge> 1075\<close>.
\<close>

theorem nested_sampling_level_count:
  assumes "nested_sampling rs n a N = Some (Inr r)"
  shows "(\<exists>k st. levels k rs (nat N) (nat n) (int_times n a) (initial_state rs (nat N) (nat n))
                    = Inr (Inr st) \<and>
                 level rs (nat N) (nat n) (int_times n a) st = Inr (Inl r) \<and> K r = int k) \<and>
         K r = int (length (accept_rates r)) \<and>
         length (thresholds r) = length (accept_rates r) + 1 \<and>
         0 \<le> K r \<and> probability r = fl (1 / 2 ^ nat (K r)) \<and>
         (K r \<le> 1074 \<longrightarrow>
            probability r = 1 / 2 ^ nat (K r) \<and> 0 < probability r \<and> probability r \<le> 1) \<and>
         (1075 \<le> K r \<longrightarrow> probability r = 0)"
proof -
  let ?t = "int_times n a" and ?N = "nat N" and ?n = "nat n"
  from level_loop_stops [OF nested_sampling_loop [OF assms]] obtain k st where
    k: "levels k rs ?N ?n ?t (initial_state rs ?N ?n) = Inr (Inr st)" and
    l: "level rs ?N ?n ?t st = Inr (Inl r)" by auto
  note res = level_run_result [OF k l]
  have p: "probability r = fl (1 / 2 ^ nat (K r))" using res(1,4) by simp
  have small: "probability r = 1 / 2 ^ nat (K r) \<and> 0 < probability r \<and> probability r \<le> 1"
    if "K r \<le> 1074"
  proof -
    from that have "nat (K r) \<le> 1074" by simp
    from fl_half_power_small [OF this] p have e: "probability r = 1 / 2 ^ nat (K r)" by simp
    have "0 < probability r" unfolding e by simp
    moreover have "probability r \<le> 1" unfolding e by (simp add: divide_le_eq_1)
    ultimately show ?thesis using e by blast
  qed
  have large: "probability r = 0" if "1075 \<le> K r"
  proof -
    from that have "1075 \<le> nat (K r)" by simp
    from fl_half_power_large [OF this] p show ?thesis by simp
  qed
  have "0 \<le> K r" using res(1) by simp
  with k l res(1,2,3) p small large show ?thesis by blast
qed

text \<open>The run of four particles with target \<open>3\<close>: two completed passes.\<close>

theorem nested_sampling_level_count_witness:
  "K \<lparr>thresholds = [3 / 2, 5 / 2, 7 / 2],
       vars_median = [Fin (9 / 1024), Fin (9 / 1024), Fin (9 / 1024)],
       accept_rates = [3 / 4, 3 / 4], probability = 1 / 4, K = 2,
       final_samples = [[3], [3], [4], [5]]\<rparr> = int (length [3 / 4, 3 / 4 :: real]) \<and>
   nested_sampling rs_example 1 (Fin 3) 4 =
     Some (Inr \<lparr>thresholds = [3 / 2, 5 / 2, 7 / 2],
                vars_median = [Fin (9 / 1024), Fin (9 / 1024), Fin (9 / 1024)],
                accept_rates = [3 / 4, 3 / 4], probability = 1 / 4, K = 2,
                final_samples = [[3], [3], [4], [5]]\<rparr>)"
  using nested_sampling_level_count [OF run_example] run_example by simp




section \<open>Claims about the variance of the median\<close>

text \<open>
  Claim C7, as stated, fails in its closed form: for the sums \<open>0, 0, 0, 4\<close> the quartile
  gap is \<open>1\<close> and the variance of the median is \<open>1/64\<close>, not the gap squared over
  \<open>N = 4\<close>.
\<close>

theorem var_median_gap_over_N_counterexample:
  "percentile [0, 0, 0, 4] 75 > percentile [0, 0, 0, 4] 50 \<and>
   var_median [0, 0, 0, 4] 4
     \<noteq> Fin ((percentile [0, 0, 0, 4] 75 - percentile [0, 0, 0, 4] 50) ^ 2 / real 4)"
  by (simp add: gap_example)

text \<open>
  Claim C7, amended. With \<open>f(u) = (N/2) / (Q75 - Q50)\<close> the variance of the median is
  \<open>1 / (4 N f(u)\<^sup>2)\<close> whenever \<open>Q75 > Q50\<close>, which equals \<open>(Q75 - Q50)\<^sup>2 / N\<^sup>3\<close>, and it is
  \<open>+\<infinity>\<close> whenever \<open>Q75 \<le> Q50\<close>.
\<close>

theorem var_median_formula:
  assumes "0 < N"
  shows "var_median row_sums N =
           (if percentile row_sums 75 > percentile row_sums 50
            then Fin (1 / (4 * real N
                   * ((real N / 2) / (percentile row_sums 75 - percentile row_sums 50)) ^ 2))
            else PInf) \<and>
         (percentile row_sums 75 > percentile row_sums 50 \<longrightarrow>
            var_median row_sums N
              = Fin ((percentile row_sums 75 - percentile row_sums 50) ^ 2 / real N ^ 3))"
proof -
  let ?d = "percentile row_sums 75 - percentile row_sums 50"
  have def: "var_median row_sums N =
           (if percentile row_sums 75 > percentile row_sums 50
            then Fin (1 / (4 * real N * ((real N / 2) / ?d) ^ 2)) else PInf)"
    by (simp add: var_median_def Let_def)
  have "1 / (4 * real N * ((real N / 2) / ?d) ^ 2) = ?d ^ 2 / real N ^ 3" if "0 < ?d"
    by (rule var_algebra) (use that assms in simp_all)
  with def show ?thesis by simp
qed

text \<open>The sums \<open>0, 0, 0, 4\<close>: gap \<open>1\<close>, variance \<open>1 / 4\<^sup>3\<close>.\<close>

theorem var_median_formula_witness:
  "var_median [0, 0, 0, 4] 4 = Fin (1 / 64) \<and>
   var_median [0, 0, 0, 4] 4
     = Fin ((percentile [0, 0, 0, 4] 75 - percentile [0, 0, 0, 4] 50) ^ 2 / real 4 ^ 3)"
proof -
  have h: "(0::nat) < 4" by simp
  from var_median_formula [OF h, of "[0, 0, 0, 4]"] gap_example show ?thesis by simp
qed

text \<open>
  Claim C8, as stated, fails in both directions. The sums \<open>0, 1, 1, 2\<close> are tied at the
  two central order statistics, and the variance of the median is finite, because the
  test is on the quartiles \<open>Q75 = 5/4\<close> and \<open>Q50 = 1\<close>. The two sums \<open>1 + 2\<^sup>-\<^sup>5\<^sup>2\<close> and
  \<open>1 + 3 \<cdot> 2\<^sup>-\<^sup>5\<^sup>2\<close> are not tied, and the variance of the median is \<open>+\<infinity>\<close>, because
  both interpolated quartiles are rounded to \<open>1 + 2\<^sup>-\<^sup>5\<^sup>1\<close>.
\<close>

theorem var_median_central_tie_counterexample:
  "sort [0, 1, 1, 2::real] ! 1 = sort [0, 1, 1, 2] ! 2 \<and>
   var_median [0, 1, 1, 2] 4 = Fin (1 / 1024) \<and>
   sort [1 + 1 / 2 ^ 52, 1 + 3 / 2 ^ 52 :: real] ! 0 < sort [1 + 1 / 2 ^ 52, 1 + 3 / 2 ^ 52] ! 1 \<and>
   var_median [1 + 1 / 2 ^ 52, 1 + 3 / 2 ^ 52] 2 = PInf"
proof -
  have "var_median [1 + 1 / 2 ^ 52, 1 + 3 / 2 ^ 52] 2 = PInf"
    unfolding var_median_def Let_def round_quartiles by simp
  then show ?thesis by (simp add: tie_example)
qed

text \<open>
  Claim C8, amended. For a non-empty vector the variance of the median is \<open>+\<infinity>\<close> exactly
  when the doubles that \<^verbatim>\<open>np.percentile\<close> returns satisfy \<open>Q75 \<le> Q50\<close>, and finite
  exactly when \<open>Q50 < Q75\<close>. It is \<open>+\<infinity>\<close> whenever the order statistics from index
  \<open>\<lfloor>(N-1)/2\<rfloor>\<close> up to index \<open>\<lceil>3(N-1)/4\<rceil>\<close> are all equal; a tie of the two central order
  statistics alone does not make it infinite, and their being different does not make it
  finite.
\<close>

theorem var_median_infinite_iff:
  assumes "row_sums \<noteq> []"
  shows "(var_median row_sums N = PInf \<longleftrightarrow> percentile row_sums 75 \<le> percentile row_sums 50) \<and>
         ((\<exists>v. var_median row_sums N = Fin v) \<longleftrightarrow> percentile row_sums 50 < percentile row_sums 75) \<and>
         ((\<forall>i. (length row_sums - 1) div 2 \<le> i \<and> i \<le> (3 * (length row_sums - 1) + 3) div 4
              \<longrightarrow> sort row_sums ! i = sort row_sums ! ((length row_sums - 1) div 2))
          \<longrightarrow> var_median row_sums N = PInf)"
proof -
  have inf: "var_median row_sums N = PInf \<longleftrightarrow> percentile row_sums 75 \<le> percentile row_sums 50"
    by (simp add: var_median_def Let_def not_less)
  have fin: "(\<exists>v. var_median row_sums N = Fin v) \<longleftrightarrow> percentile row_sums 50 < percentile row_sums 75"
    by (simp add: var_median_def Let_def)
  have tie: "var_median row_sums N = PInf"
    if "\<forall>i. (length row_sums - 1) div 2 \<le> i \<and> i \<le> (3 * (length row_sums - 1) + 3) div 4
              \<longrightarrow> sort row_sums ! i = sort row_sums ! ((length row_sums - 1) div 2)"
  proof -
    from quartiles_tied [OF assms that]
    have "percentile row_sums 75 = percentile row_sums 50" by simp
    with inf show ?thesis by simp
  qed
  from inf fin tie show ?thesis by blast
qed

text \<open>The sums \<open>0, 1, 2, 3\<close> have different quartiles; the sums \<open>1, 1, 1, 1\<close> are all tied.\<close>

theorem var_median_infinite_iff_witness:
  "var_median [0, 1, 2, 3] 4 \<noteq> PInf \<and> percentile [0, 1, 2, 3] 50 < percentile [0, 1, 2, 3] 75 \<and>
   var_median [1, 1, 1, 1] 4 = PInf"
proof -
  have h: "[0, 1, 2, 3::real] \<noteq> []" "[1, 1, 1, 1::real] \<noteq> []" by simp_all
  have q: "percentile [0, 1, 2, 3] 50 < percentile [0, 1, 2, 3] 75" by (simp add: eval_defs)
  have t: "\<forall>i. (length [1, 1, 1, 1::real] - 1) div 2 \<le> i
                \<and> i \<le> (3 * (length [1, 1, 1, 1::real] - 1) + 3) div 4
              \<longrightarrow> sort [1, 1, 1, 1::real] ! i = sort [1, 1, 1, 1] ! ((length [1, 1, 1, 1::real] - 1) div 2)"
  proof (intro allI impI)
    fix i :: nat
    assume "(length [1, 1, 1, 1::real] - 1) div 2 \<le> i
                \<and> i \<le> (3 * (length [1, 1, 1, 1::real] - 1) + 3) div 4"
    then have "i = 1 \<or> i = 2 \<or> i = 3" by auto
    then show "sort [1, 1, 1, 1::real] ! i = sort [1, 1, 1, 1] ! ((length [1, 1, 1, 1::real] - 1) div 2)"
      by auto
  qed
  from var_median_infinite_iff [OF h(1), of 4] q have "var_median [0, 1, 2, 3] 4 \<noteq> PInf" by simp
  moreover from var_median_infinite_iff [OF h(2), of 4] t have "var_median [1, 1, 1, 1] 4 = PInf"
    by blast
  ultimately show ?thesis using q by blast
qed

end
